theory Spec2Isabelle
  imports Main "HOL-Library.Word"
begin

section \<open>JavaScript strings\<close>

text \<open>
  A JavaScript string is a sequence of UTF-16 code units. The regular expressions of
  \<^verbatim>\<open>Home.tsx\<close> carry no \<^verbatim>\<open>u\<close> flag, so they and \<^verbatim>\<open>trim\<close> work on code units.
  \<open>js\<close> embeds an ASCII literal.
\<close>

type_synonym code_unit = "16 word"
type_synonym jsstring = "code_unit list"

definition js :: "string \<Rightarrow> jsstring" where
  "js cs = map of_char cs"

text \<open>
  ECMAScript WhiteSpace and LineTerminator: the code units that \<^verbatim>\<open>\s\<close> matches and
  that \<^verbatim>\<open>String.prototype.trim\<close> removes (TAB, LF, VT, FF, CR, SP, NBSP, the Unicode
  space separators, LS, PS and the byte order mark).
\<close>

definition is_line_terminator :: "code_unit \<Rightarrow> bool" where
  "is_line_terminator u \<longleftrightarrow> u = 0x0A \<or> u = 0x0D \<or> u = 0x2028 \<or> u = 0x2029"

definition is_space :: "code_unit \<Rightarrow> bool" where
  "is_space u \<longleftrightarrow>
     u = 0x09 \<or> u = 0x0B \<or> u = 0x0C \<or> u = 0x20 \<or> u = 0xA0 \<or> u = 0x1680 \<or>
     (0x2000 \<le> u \<and> u \<le> 0x200A) \<or> u = 0x202F \<or> u = 0x205F \<or> u = 0x3000 \<or>
     u = 0xFEFF \<or> is_line_terminator u"

text \<open>\<^verbatim>\<open>String.prototype.trim\<close>.\<close>

definition trim :: "jsstring \<Rightarrow> jsstring" where
  "trim s = rev (dropWhile is_space (rev (dropWhile is_space s)))"

section \<open>The regular expressions of the response parser\<close>

text \<open>
  The fragment of ECMAScript regular expressions that \<^verbatim>\<open>generateFormula\<close> uses, as a
  chain of terms ending in \<open>Accept\<close>: literals, one character of a class, greedy and lazy
  repetition of a class, the parentheses of capture group 1, a positive lookahead, and
  the two anchors (without the \<^verbatim>\<open>m\<close> flag).
\<close>

datatype cclass =
    Space      \<comment> \<open>\<^verbatim>\<open>\s\<close>\<close>
  | Newline    \<comment> \<open>\<^verbatim>\<open>\n\<close>\<close>
  | AnyUnit    \<comment> \<open>\<^verbatim>\<open>.\<close> under the \<^verbatim>\<open>s\<close> flag\<close>
  | Dot        \<comment> \<open>\<^verbatim>\<open>.\<close> without the \<^verbatim>\<open>s\<close> flag\<close>
  | Quote      \<comment> \<open>\<^verbatim>\<open>["']\<close>\<close>

fun in_class :: "cclass \<Rightarrow> code_unit \<Rightarrow> bool" where
  "in_class Space u = is_space u"
| "in_class Newline u = (u = 0x0A)"
| "in_class AnyUnit u = True"
| "in_class Dot u = (\<not> is_line_terminator u)"
| "in_class Quote u = (u = 0x22 \<or> u = 0x27)"

datatype rx =
    Accept
  | Lit jsstring rx
  | One cclass rx
  | Star cclass rx
  | LazyStar cclass rx
  | GOpen rx
  | GClose rx
  | Look rx rx
  | Bol rx
  | Eol rx

text \<open>
  The backtracking matcher. \<open>m r i inp g c\<close> matches \<open>r\<close> at index \<open>i\<close>, where \<open>inp\<close> is
  the subject from \<open>i\<close> on, \<open>g\<close> the index at which the group was opened and \<open>c\<close> the
  capture so far; it returns the end index and the capture of the first match in the
  order ECMAScript tries them: a greedy star tries one more character before it tries
  the rest of the pattern, a lazy star the other way round.
\<close>

fun m :: "rx \<Rightarrow> nat \<Rightarrow> jsstring \<Rightarrow> nat \<Rightarrow> (nat \<times> nat) option \<Rightarrow> (nat \<times> (nat \<times> nat) option) option" where
  "m Accept i inp g c = Some (i, c)"
| "m (Lit x r) i inp g c =
     (if take (length x) inp = x then m r (i + length x) (drop (length x) inp) g c else None)"
| "m (One k r) i [] g c = None"
| "m (One k r) i (u # us) g c = (if in_class k u then m r (Suc i) us g c else None)"
| "m (Star k r) i [] g c = m r i [] g c"
| "m (Star k r) i (u # us) g c =
     (if in_class k u
      then (case m (Star k r) (Suc i) us g c of
              Some res \<Rightarrow> Some res
            | None \<Rightarrow> m r i (u # us) g c)
      else m r i (u # us) g c)"
| "m (LazyStar k r) i [] g c = m r i [] g c"
| "m (LazyStar k r) i (u # us) g c =
     (case m r i (u # us) g c of
        Some res \<Rightarrow> Some res
      | None \<Rightarrow> if in_class k u then m (LazyStar k r) (Suc i) us g c else None)"
| "m (GOpen r) i inp g c = m r i inp i c"
| "m (GClose r) i inp g c = m r i inp g (Some (g, i))"
| "m (Look r1 r2) i inp g c =
     (case m r1 i inp g c of
        None \<Rightarrow> None
      | Some (e, c') \<Rightarrow> m r2 i inp g c')"
| "m (Bol r) i inp g c = (if i = 0 then m r i inp g c else None)"
| "m (Eol r) i inp g c = (if inp = [] then m r i inp g c else None)"

text \<open>
  The result of \<^verbatim>\<open>RegExp.prototype.exec\<close> for a regular expression without the
  \<^verbatim>\<open>g\<close> and \<^verbatim>\<open>y\<close> flags: the matcher is tried at index 0, 1, ... up to the length of
  the subject, and the first index that matches wins.
\<close>

record match_result =
  index :: nat
  end_index :: nat
  group1 :: "jsstring option"

fun search :: "rx \<Rightarrow> jsstring \<Rightarrow> nat \<Rightarrow> jsstring \<Rightarrow> match_result option" where
  "search r s i inp =
     (case m r i inp 0 None of
        Some (e, c) \<Rightarrow>
          Some \<lparr>index = i, end_index = e,
                group1 = map_option (\<lambda>(a, b). take (b - a) (drop a s)) c\<rparr>
      | None \<Rightarrow> (case inp of [] \<Rightarrow> None | u # us \<Rightarrow> search r s (Suc i) us))"

definition exec :: "rx \<Rightarrow> jsstring \<Rightarrow> match_result option" where
  "exec r s = search r s 0 s"

text \<open>The two header tokens.\<close>

definition formula_header :: jsstring where
  "formula_header = js ''FORMULA:''"

definition explanation_header :: jsstring where
  "explanation_header = js ''EXPLANATION:''"

text \<open>\<^verbatim>\<open>/FORMULA:\s*\n*(.*?)(?=\s*\n*EXPLANATION:)/s\<close>\<close>

definition formula_rx :: rx where
  "formula_rx =
     Lit formula_header (Star Space (Star Newline (GOpen (LazyStar AnyUnit (GClose
       (Look (Star Space (Star Newline (Lit explanation_header Accept))) Accept))))))"

text \<open>\<^verbatim>\<open>/EXPLANATION:\s*\n*(.*)/s\<close>\<close>

definition explanation_rx :: rx where
  "explanation_rx =
     Lit explanation_header (Star Space (Star Newline (GOpen (Star AnyUnit (GClose Accept)))))"

text \<open>\<^verbatim>\<open>/^["'](.+)["']$/\<close>; \<^verbatim>\<open>.+\<close> is one \<^verbatim>\<open>.\<close> and then a greedy \<^verbatim>\<open>.*\<close>.\<close>

definition quotes_rx :: rx where
  "quotes_rx = Bol (One Quote (GOpen (One Dot (Star Dot (GClose (One Quote (Eol Accept)))))))"

text \<open>
  \<^verbatim>\<open>s.replace(r, '$1')\<close> for a regular expression without the \<^verbatim>\<open>g\<close> flag: the first
  match is replaced by capture group 1 (by the empty string if the group took no part).
\<close>

definition replace_by_group1 :: "rx \<Rightarrow> jsstring \<Rightarrow> jsstring" where
  "replace_by_group1 r s =
     (case exec r s of
        None \<Rightarrow> s
      | Some mt \<Rightarrow>
          take (index mt) s @ (case group1 mt of None \<Rightarrow> [] | Some x \<Rightarrow> x) @ drop (end_index mt) s)"

section \<open>The response parser\<close>

text \<open>
  What a \<^verbatim>\<open>throw\<close> or a rejected promise hands to the \<^verbatim>\<open>catch\<close> block: an instance
  of \<^verbatim>\<open>Error\<close> with its message, or any other value.
\<close>

datatype thrown = ErrorObj jsstring | NonError

definition parse_failure_message :: jsstring where
  "parse_failure_message = js ''Failed to parse AI response correctly''"

text \<open>
  Reading \<^verbatim>\<open>[1]\<close> of a match whose group took no part gives \<^verbatim>\<open>undefined\<close>, and
  \<^verbatim>\<open>undefined.trim()\<close> throws a TypeError (the text is V8's). Lemma
  \<open>header_match_has_group\<close> below shows that no match of the two header expressions leaves
  the group out.
\<close>

definition type_error_message :: jsstring where
  "type_error_message =
     js ''Cannot read properties of undefined (reading '' @ [0x27] @ js ''trim'' @ [0x27] @ js '')''"

record parsed_formula =
  cleanFormula :: jsstring
  explanationText :: jsstring

text \<open>
  Lines 40 to 51 of \<^verbatim>\<open>Home.tsx\<close>: the two matches, the test that both succeeded, the
  trimming and the removal of the outer quotes; \<open>Inl\<close> is the value thrown.
\<close>

definition parse_response :: "jsstring \<Rightarrow> thrown + parsed_formula" where
  "parse_response response =
     (let formulaMatch = exec formula_rx response;
          explanationMatch = exec explanation_rx response
      in case (formulaMatch, explanationMatch) of
           (Some fm, Some em) \<Rightarrow>
             (case (group1 fm, group1 em) of
                (Some f1, Some e1) \<Rightarrow>
                  (let rawFormula = trim f1;
                       cleanFormula = replace_by_group1 quotes_rx rawFormula
                   in Inr \<lparr>cleanFormula = cleanFormula, explanationText = trim e1\<rparr>)
              | _ \<Rightarrow> Inl (ErrorObj type_error_message))
         | _ \<Rightarrow> Inl (ErrorObj parse_failure_message))"

section \<open>The component state and \<^verbatim>\<open>generateFormula\<close>\<close>

text \<open>The six \<^verbatim>\<open>useState\<close> cells of \<^verbatim>\<open>Home\<close>.\<close>

record state =
  description :: jsstring
  formula :: jsstring
  explanation :: jsstring
  loading :: bool
  error :: "jsstring option"
  copied :: bool

definition initial_state :: state where
  "initial_state =
     \<lparr>description = [], formula = [], explanation = [], loading = False, error = None,
      copied = False\<rparr>"

text \<open>
  What the awaited call \<^verbatim>\<open>model.generateContent(prompt)\<close> and \<^verbatim>\<open>result.response.text()\<close>
  come to: the text of the response, or a value thrown. The client \<^verbatim>\<open>genAI\<close> is imported
  from \<^verbatim>\<open>@/lib/gemini\<close>; it is a parameter here, \<open>None\<close> for \<^verbatim>\<open>null\<close>, and otherwise
  the function from the prompt to what the service answers.
\<close>

datatype outcome = Resolved jsstring | Rejected thrown

type_synonym client = "jsstring \<Rightarrow> outcome"

definition not_configured_message :: jsstring where
  "not_configured_message =
     js ''API key not configured. Please add your Gemini API key to continue.''"

definition fallback_message :: jsstring where
  "fallback_message = js ''An error occurred while generating the Excel formula''"

definition indent :: jsstring where
  "indent = [0x0A] @ js ''      ''"

definition build_prompt :: "jsstring \<Rightarrow> jsstring" where
  "build_prompt d =
     js ''Generate an Excel formula based on this requirement: '' @ d @ js ''. '' @
     indent @ js ''Format your response exactly like this, including the exact headers:'' @
     [0x0A] @ indent @ js ''FORMULA:'' @
     indent @ js ''[The exact Excel formula, nothing else]'' @
     [0x0A] @ indent @ js ''EXPLANATION:'' @
     indent @ js ''[A clear, step-by-step explanation of how the formula works, with each step on a new line starting with a number and a dot]''"

text \<open>The \<^verbatim>\<open>catch\<close> block (lines 52 to 55) and the \<^verbatim>\<open>finally\<close> block (line 57).\<close>

definition catch_block :: "thrown \<Rightarrow> state \<Rightarrow> state" where
  "catch_block err s =
     s\<lparr>error := Some (case err of ErrorObj msg \<Rightarrow> msg | NonError \<Rightarrow> fallback_message),
       formula := [],
       explanation := []\<rparr>"

definition finally_block :: "state \<Rightarrow> state" where
  "finally_block s = s\<lparr>loading := False\<rparr>"

text \<open>
  \<^verbatim>\<open>generateFormula\<close> runs in two pieces, each without interruption. \<open>start\<close> is the
  piece up to the \<^verbatim>\<open>await\<close>: it returns the state and the prompt of the call it issued,
  if it issued one. \<open>finish\<close> is the piece that runs when the call has settled.
\<close>

definition start :: "client option \<Rightarrow> state \<Rightarrow> state \<times> jsstring option" where
  "start genAI s =
     (if trim (description s) = [] then (s, None)
      else
        (let s1 = s\<lparr>loading := True, error := None\<rparr>
         in case genAI of
              None \<Rightarrow> (finally_block (catch_block (ErrorObj not_configured_message) s1), None)
            | Some ai \<Rightarrow> (s1, Some (build_prompt (description s)))))"

definition finish :: "outcome \<Rightarrow> state \<Rightarrow> state" where
  "finish out s =
     finally_block
       (case out of
          Rejected err \<Rightarrow> catch_block err s
        | Resolved response \<Rightarrow>
            (case parse_response response of
               Inl err \<Rightarrow> catch_block err s
             | Inr p \<Rightarrow> s\<lparr>formula := cleanFormula p, explanation := explanationText p\<rparr>))"

text \<open>
  One call of \<^verbatim>\<open>generateFormula\<close> from its first line to its last, nothing else running
  in between: the final state and the prompts sent to the service. (\<open>start\<close> returns a
  prompt only when the client is there, so the inner \<open>None\<close> is never reached.)
\<close>

definition generateFormula :: "client option \<Rightarrow> state \<Rightarrow> state \<times> jsstring list" where
  "generateFormula genAI s =
     (case start genAI s of
        (s', None) \<Rightarrow> (s', [])
      | (s', Some prompt) \<Rightarrow>
          (case genAI of
             None \<Rightarrow> (s', [])
           | Some ai \<Rightarrow> (finish (ai prompt) s', [prompt])))"

text \<open>
  The page as a whole. Requests that have been sent and have not settled are kept in the
  order they were issued. \<open>Edit\<close> is typing into the text area; \<open>Click\<close> is the button,
  which is disabled while \<open>loading\<close> holds or the description is blank; \<open>Invoke\<close> calls
  \<^verbatim>\<open>generateFormula\<close> directly; \<open>Settle k out\<close> is the \<open>k\<close>-th request in flight settling
  with \<open>out\<close>.
\<close>

record page =
  ui :: state
  in_flight :: "jsstring list"

datatype event = Edit jsstring | Click | Invoke | Settle nat outcome

definition invoke :: "client option \<Rightarrow> page \<Rightarrow> page" where
  "invoke genAI p =
     (case start genAI (ui p) of
        (s', None) \<Rightarrow> p\<lparr>ui := s'\<rparr>
      | (s', Some prompt) \<Rightarrow> \<lparr>ui = s', in_flight = in_flight p @ [prompt]\<rparr>)"

fun step :: "client option \<Rightarrow> page \<Rightarrow> event \<Rightarrow> page" where
  "step genAI p (Edit d) = p\<lparr>ui := (ui p)\<lparr>description := d\<rparr>\<rparr>"
| "step genAI p Click =
     (if loading (ui p) \<or> trim (description (ui p)) = [] then p else invoke genAI p)"
| "step genAI p Invoke = invoke genAI p"
| "step genAI p (Settle k out) =
     (if k < length (in_flight p)
      then \<lparr>ui = finish out (ui p), in_flight = take k (in_flight p) @ drop (Suc k) (in_flight p)\<rparr>
      else p)"

definition run :: "client option \<Rightarrow> page \<Rightarrow> event list \<Rightarrow> page" where
  "run genAI p evs = foldl (step genAI) p evs"

definition is_invoke :: "event \<Rightarrow> bool" where
  "is_invoke ev = (case ev of Invoke \<Rightarrow> True | _ \<Rightarrow> False)"

section \<open>The segments of a response\<close>

text \<open>
  \<^verbatim>\<open>String.prototype.indexOf\<close>: the index of the first occurrence of \<open>x\<close> in a string,
  if there is one.
\<close>

fun first_index :: "jsstring \<Rightarrow> jsstring \<Rightarrow> nat option" where
  "first_index x [] = (if x = [] then Some 0 else None)"
| "first_index x (u # us) =
     (if take (length x) (u # us) = x then Some 0 else map_option Suc (first_index x us))"

text \<open>
  The two segments as the specification words them: the formula segment is all text
  after \<^verbatim>\<open>FORMULA:\<close> up to, not including, the next occurrence of \<^verbatim>\<open>EXPLANATION:\<close>; the
  explanation segment is all text after \<^verbatim>\<open>EXPLANATION:\<close> to the end of the response.
  Neither is trimmed yet.
\<close>

definition spec_formula_segment :: "jsstring \<Rightarrow> jsstring option" where
  "spec_formula_segment raw =
     (case first_index formula_header raw of
        None \<Rightarrow> None
      | Some p \<Rightarrow>
          (case first_index explanation_header (drop (p + length formula_header) raw) of
             None \<Rightarrow> None
           | Some j \<Rightarrow> Some (take j (drop (p + length formula_header) raw))))"

definition spec_explanation_segment :: "jsstring \<Rightarrow> jsstring option" where
  "spec_explanation_segment raw =
     (case first_index explanation_header raw of
        None \<Rightarrow> None
      | Some q \<Rightarrow> Some (drop (q + length explanation_header) raw))"

text \<open>
  What \<^verbatim>\<open>/^["'](.+)["']$/\<close> matches, read as a condition on the whole string: a quote
  character at either end (a double or a single straight quote, not necessarily the same
  at both ends) and in between at least one code unit, none of them a line terminator.
\<close>

definition in_outer_quotes :: "jsstring \<Rightarrow> bool" where
  "in_outer_quotes s \<longleftrightarrow>
     3 \<le> length s \<and> in_class Quote (hd s) \<and> in_class Quote (last s) \<and>
     list_all (in_class Dot) (butlast (tl s))"

text \<open>
  For the proofs: whether the lookahead of \<open>formula_rx\<close> holds of the rest of the input,
  and how many code units the lazy star takes before it first does.
\<close>

definition lookahead_holds :: "jsstring \<Rightarrow> bool" where
  "lookahead_holds inp \<longleftrightarrow>
     take (length explanation_header) (dropWhile is_space inp) = explanation_header"

fun first_lookahead :: "jsstring \<Rightarrow> nat option" where
  "first_lookahead [] = (if lookahead_holds [] then Some 0 else None)"
| "first_lookahead (u # us) =
     (if lookahead_holds (u # us) then Some 0 else map_option Suc (first_lookahead us))"

section \<open>Example inputs\<close>

text \<open>
  A service that cannot be reached; one whose call throws an \<^verbatim>\<open>Error\<close> without a message
  (\<^verbatim>\<open>new Error()\<close>); one whose call rejects with a value that is not an \<^verbatim>\<open>Error\<close> (a
  string, say); one that answers without the headers; and one that answers as asked.
\<close>

definition unreachable_service :: client where
  "unreachable_service prompt = Rejected (ErrorObj (js ''fetch failed''))"

definition silent_failure_service :: client where
  "silent_failure_service prompt = Rejected (ErrorObj [])"

definition string_rejecting_service :: client where
  "string_rejecting_service prompt = Rejected NonError"

definition rambling_service :: client where
  "rambling_service prompt = Resolved (js ''no headers here'')"

definition answering_service :: client where
  "answering_service prompt = Resolved (js ''FORMULA:=A1 EXPLANATION:x'')"

text \<open>
  Responses of the service. The first two are the examples of the specification: a
  formula in straight double quotes, and a formula with quotes inside it.
\<close>

definition response_quoted_sum :: jsstring where
  "response_quoted_sum =
     js ''FORMULA:'' @ [0x0A, 0x22] @ js ''=SUM(A1:A10)'' @ [0x22, 0x0A, 0x0A] @
     js ''EXPLANATION:'' @ [0x0A] @ js ''1. adds values'' @ [0x0A]"

definition response_text_formula :: jsstring where
  "response_text_formula =
     js ''FORMULA:'' @ [0x0A] @ js ''=TEXT(A1,'' @ [0x22] @ js ''yyyy'' @ [0x22] @ js '')'' @
     [0x0A, 0x0A] @ js ''EXPLANATION:'' @ [0x0A] @ js ''formats date'' @ [0x0A]"

text \<open>A formula that opens with a double quote and closes with a single one.\<close>

definition response_mismatched_quotes :: jsstring where
  "response_mismatched_quotes =
     js ''FORMULA:'' @ [0x22] @ js ''=A1'' @ [0x27] @ js '' EXPLANATION:x''"

text \<open>Nothing between the two headers; and nothing after either.\<close>

definition response_empty_formula :: jsstring where
  "response_empty_formula = js ''FORMULA:'' @ [0x0A] @ js ''EXPLANATION:'' @ [0x0A] @ js ''x''"

definition response_headers_only :: jsstring where
  "response_headers_only = js ''FORMULA:EXPLANATION:''"

text \<open>A formula that has the explanation header inside a string.\<close>

definition response_embedded_header :: jsstring where
  "response_embedded_header =
     js ''FORMULA:'' @ [0x0A] @ js ''=IF(A1,'' @ [0x22] @ js ''EXPLANATION: yes'' @ [0x22] @
     js '',1)'' @ [0x0A] @ js ''EXPLANATION:'' @ [0x0A] @ js ''1. test''"

text \<open>A state that shows an earlier result.\<close>

definition shown_state :: state where
  "shown_state = initial_state\<lparr>description := js ''sum'', formula := js ''=A1'',
     explanation := js ''old''\<rparr>"

text \<open>The page before anything was typed or sent.\<close>

definition idle_page :: page where
  "idle_page = \<lparr>ui = initial_state, in_flight = []\<rparr>"

section \<open>The matcher on the three expressions\<close>

subsection \<open>The header tokens\<close>

text \<open>
  The first code unit of \<^verbatim>\<open>EXPLANATION:\<close> is not whitespace, so the lookahead holds of
  an input exactly when the header follows its leading whitespace.
\<close>

lemma explanation_header_code:
  "explanation_header = [0x45, 0x58, 0x50, 0x4C, 0x41, 0x4E, 0x41, 0x54, 0x49, 0x4F, 0x4E, 0x3A]"
  by (simp add: explanation_header_def js_def)

lemma formula_header_code:
  "formula_header = [0x46, 0x4F, 0x52, 0x4D, 0x55, 0x4C, 0x41, 0x3A]"
  by (simp add: formula_header_def js_def)

lemma explanation_header_nonempty: "explanation_header \<noteq> []" "[] \<noteq> explanation_header"
  by (simp_all add: explanation_header_code)

lemma E_not_space: "\<not> is_space 0x45"
  by (simp add: is_space_def is_line_terminator_def)

lemma newline_is_space: "is_space 0x0A"
  by (simp add: is_space_def is_line_terminator_def)

lemma take_header_hd:
  "take (length explanation_header) (u # us) = explanation_header \<Longrightarrow> u = 0x45"
  by (simp add: explanation_header_code)

lemma lookahead_holds_Nil: "\<not> lookahead_holds []"
  by (simp add: lookahead_holds_def explanation_header_nonempty)

lemma lookahead_holds_space: "is_space u \<Longrightarrow> lookahead_holds (u # us) = lookahead_holds us"
  by (simp add: lookahead_holds_def)

lemma lookahead_holds_nonspace:
  "\<not> is_space u \<Longrightarrow>
   lookahead_holds (u # us) \<longleftrightarrow> take (length explanation_header) (u # us) = explanation_header"
  by (simp add: lookahead_holds_def)

lemma header_here_lookahead:
  "take (length explanation_header) inp = explanation_header \<Longrightarrow> lookahead_holds inp"
proof (cases inp)
  case Nil
  assume "take (length explanation_header) inp = explanation_header"
  with Nil explanation_header_nonempty show ?thesis by simp
next
  case (Cons u us)
  assume h: "take (length explanation_header) inp = explanation_header"
  with Cons have "u = 0x45" by (simp add: take_header_hd)
  with E_not_space have "\<not> is_space u" by simp
  with h Cons show ?thesis by (simp add: lookahead_holds_nonspace)
qed

subsection \<open>The lookahead\<close>

text \<open>
  The greedy stars of the lookahead take all the whitespace; giving some of it back
  never helps, since the header cannot start at a whitespace code unit. The lazy star of
  the group therefore stops at the first position at which the lookahead holds.
\<close>

lemma m_newlines_header_fails:
  "\<not> lookahead_holds inp \<Longrightarrow>
   m (Star Newline (Lit explanation_header Accept)) i inp g c = None"
proof (induction inp arbitrary: i)
  case Nil
  then show ?case by (simp add: explanation_header_nonempty)
next
  case (Cons u us)
  from Cons.prems header_here_lookahead [of "u # us"]
  have here: "take (length explanation_header) (u # us) \<noteq> explanation_header" by blast
  consider (newline) "u = 0x0A" | (other) "u \<noteq> 0x0A" by blast
  then show ?case
  proof cases
    case newline
    with Cons.prems have "\<not> lookahead_holds us"
      by (simp add: lookahead_holds_space newline_is_space)
    with Cons.IH have "m (Star Newline (Lit explanation_header Accept)) (Suc i) us g c = None" .
    with newline here show ?thesis by simp
  next
    case other
    with here show ?thesis by simp
  qed
qed

lemma m_lookahead:
  "m (Star Space (Star Newline (Lit explanation_header Accept))) i inp g c =
     (if lookahead_holds inp
      then Some (i + length (takeWhile is_space inp) + length explanation_header, c)
      else None)"
proof (induction inp arbitrary: i)
  case Nil
  then show ?case by (simp add: lookahead_holds_Nil explanation_header_nonempty)
next
  case (Cons u us)
  consider (ahead) "is_space u" "lookahead_holds us"
    | (not_ahead) "is_space u" "\<not> lookahead_holds us"
    | (here) "\<not> is_space u" by blast
  then show ?case
  proof cases
    case ahead
    with Cons.IH [of "Suc i"] show ?thesis
      by (simp add: lookahead_holds_space)
  next
    case not_ahead
    then have "\<not> lookahead_holds (u # us)" by (simp add: lookahead_holds_space)
    then have "m (Star Newline (Lit explanation_header Accept)) i (u # us) g c = None"
      by (rule m_newlines_header_fails)
    with not_ahead Cons.IH [of "Suc i"] show ?thesis
      by (simp add: lookahead_holds_space)
  next
    case here
    with newline_is_space have "u \<noteq> 0x0A" by auto
    with here show ?thesis
      by (simp add: lookahead_holds_nonspace)
  qed
qed

lemma m_close_lookahead:
  "m (GClose (Look (Star Space (Star Newline (Lit explanation_header Accept))) Accept)) i inp g c =
     (if lookahead_holds inp then Some (i, Some (g, i)) else None)"
  by (simp add: m_lookahead del: m.simps(5,6))

lemma m_lazy_body:
  "m (LazyStar AnyUnit (GClose (Look (Star Space (Star Newline (Lit explanation_header Accept)))
        Accept))) i inp g c =
     map_option (\<lambda>k. (i + k, Some (g, i + k))) (first_lookahead inp)"
proof (induction inp arbitrary: i)
  case Nil
  then show ?case by (simp add: m_close_lookahead del: m.simps(10,11))
next
  case (Cons u us)
  then show ?case
    by (simp add: m_close_lookahead option.map_comp comp_def del: m.simps(10,11))
qed


subsection \<open>Trimming\<close>

lemma rstrip_Cons:
  "rev (dropWhile P (rev t @ [u])) =
     (if P u \<and> (\<forall>x\<in>set t. P x) then [] else u # rev (dropWhile P (rev t)))"
  by (simp add: dropWhile_append dropWhile_eq_Nil_conv)

lemma rstrip_all: "(\<forall>x\<in>set t. P x) \<Longrightarrow> rev (dropWhile P (rev t)) = []"
  by (simp add: dropWhile_eq_Nil_conv)

lemma rstrip_is_take:
  "rev (dropWhile P (rev t)) = take (length (rev (dropWhile P (rev t)))) t"
proof -
  define n where "n = length (takeWhile P (rev t))"
  have e: "rev (dropWhile P (rev t)) = take (length t - n) t"
    by (simp add: n_def dropWhile_eq_drop rev_drop)
  then have "length (rev (dropWhile P (rev t))) = length t - n"
    by simp
  with e show ?thesis by simp
qed

lemma rstrip_length_le: "length (rev (dropWhile P (rev t))) \<le> length t"
  using length_dropWhile_le [of P "rev t"] by simp

lemma strip_commute:
  "dropWhile P (rev (dropWhile P (rev t))) = rev (dropWhile P (rev (dropWhile P t)))"
proof (induction t)
  case Nil
  then show ?case by simp
next
  case (Cons u t)
  consider (blank) "P u" "\<forall>x\<in>set t. P x" | (left) "P u" "\<not> (\<forall>x\<in>set t. P x)" | (keep) "\<not> P u"
    by blast
  then show ?case
  proof cases
    case blank
    have l: "rev (dropWhile P (rev (u # t))) = []" using blank by (intro rstrip_all) simp
    have r: "dropWhile P (u # t) = []" using blank by simp
    show ?thesis unfolding l r by simp
  next
    case left
    with Cons.IH show ?thesis by (auto simp add: rstrip_Cons)
  next
    case keep
    then show ?thesis by (simp add: rstrip_Cons)
  qed
qed

lemma trim_lstrip: "trim (dropWhile is_space t) = trim t"
  by (simp add: trim_def)

lemma trim_trim: "trim (trim t) = trim t"
  by (simp add: trim_def strip_commute)

lemma trim_eq_Nil: "trim t = [] \<longleftrightarrow> list_all is_space t"
proof -
  have "trim t = [] \<longleftrightarrow> (\<forall>x\<in>set (dropWhile is_space t). is_space x)"
    by (simp add: trim_def dropWhile_eq_Nil_conv)
  also have "\<dots> \<longleftrightarrow> dropWhile is_space t = []"
    by (metis dropWhile_eq_Nil_conv dropWhile_idem)
  also have "\<dots> \<longleftrightarrow> list_all is_space t"
    by (simp add: dropWhile_eq_Nil_conv list_all_iff)
  finally show ?thesis .
qed

subsection \<open>The first occurrence of a token\<close>

lemma first_index_SomeD:
  "first_index x inp = Some j \<Longrightarrow> take (length x) (drop j inp) = x \<and> j \<le> length inp"
proof (induction inp arbitrary: j)
  case Nil
  then show ?case by (simp split: if_splits)
next
  case (Cons u us)
  then show ?case by (auto split: if_splits)
qed

lemma first_index_None_tl: "first_index x (u # us) = None \<Longrightarrow> first_index x us = None"
  by (simp split: if_splits)

lemma first_index_None_drop: "first_index x inp = None \<Longrightarrow> first_index x (drop n inp) = None"
proof (induction n arbitrary: inp)
  case 0
  then show ?case by simp
next
  case (Suc n)
  then show ?case by (cases inp) (simp_all split: if_splits)
qed

lemma first_index_space:
  "is_space u \<Longrightarrow>
   first_index explanation_header (u # us) = map_option Suc (first_index explanation_header us)"
  using take_header_hd [of u us] E_not_space by auto

lemma first_index_skip_spaces:
  "first_index explanation_header inp =
     map_option (\<lambda>n. length (takeWhile is_space inp) + n)
       (first_index explanation_header (dropWhile is_space inp))"
proof (induction inp)
  case Nil
  then show ?case by (simp add: option.map_ident)
next
  case (Cons u us)
  consider (space) "is_space u" | (other) "\<not> is_space u" by blast
  then show ?case
  proof cases
    case space
    with Cons.IH show ?thesis
      by (simp only: first_index_space) (simp add: option.map_comp comp_def)
  next
    case other
    then show ?thesis by (simp add: option.map_ident)
  qed
qed

lemma lookahead_first_index:
  "lookahead_holds inp \<Longrightarrow>
   first_index explanation_header inp = Some (length (takeWhile is_space inp))"
proof -
  assume h: "lookahead_holds inp"
  consider (nil) "dropWhile is_space inp = []"
    | (cons) v vs where "dropWhile is_space inp = v # vs" by (meson list.exhaust)
  then have "first_index explanation_header (dropWhile is_space inp) = Some 0"
  proof cases
    case nil
    with h explanation_header_nonempty show ?thesis by (simp add: lookahead_holds_def)
  next
    case cons
    with h show ?thesis by (simp add: lookahead_holds_def)
  qed
  then show ?thesis by (simp add: first_index_skip_spaces [of inp])
qed

lemma spaces_then_header:
  assumes "\<forall>x\<in>set (take j us). is_space x"
    and "take (length explanation_header) (drop j us) = explanation_header"
  shows "lookahead_holds us"
proof -
  have "dropWhile is_space us = dropWhile is_space (take j us @ drop j us)" by simp
  also have "\<dots> = dropWhile is_space (drop j us)"
    using assms(1) by (simp only: dropWhile_append2)
  finally have "lookahead_holds us = lookahead_holds (drop j us)"
    by (simp add: lookahead_holds_def)
  with header_here_lookahead [OF assms(2)] show ?thesis by simp
qed

lemma first_lookahead_holds: "lookahead_holds inp \<Longrightarrow> first_lookahead inp = Some 0"
  by (cases inp) (simp_all add: lookahead_holds_Nil)

lemma first_lookahead_first_index:
  "first_lookahead inp =
     map_option (\<lambda>j. length (rev (dropWhile is_space (rev (take j inp)))))
       (first_index explanation_header inp)"
proof (induction inp)
  case Nil
  then show ?case by (simp add: lookahead_holds_Nil explanation_header_nonempty)
next
  case (Cons u us)
  consider (holds) "lookahead_holds (u # us)" | (not_yet) "\<not> lookahead_holds (u # us)" by blast
  then show ?case
  proof cases
    case holds
    have "\<forall>x\<in>set (takeWhile is_space (u # us)). is_space x"
      by (auto dest: set_takeWhileD)
    then have z: "rev (dropWhile is_space (rev (takeWhile is_space (u # us)))) = []"
      by (rule rstrip_all)
    have z2: "rev (dropWhile is_space (rev (take (length (takeWhile is_space (u # us))) (u # us)))) = []"
      using z takeWhile_eq_take [of is_space "u # us"] by metis
    show ?thesis
      by (simp only: lookahead_first_index [OF holds] first_lookahead_holds [OF holds]
          option.map z2 list.size)
  next
    case not_yet
    with header_here_lookahead [of "u # us"]
    have here: "take (length explanation_header) (u # us) \<noteq> explanation_header" by blast
    consider (none) "first_index explanation_header us = None"
      | (some) j where "first_index explanation_header us = Some j" by fastforce
    then show ?thesis
    proof cases
      case none
      with not_yet here Cons.IH show ?thesis by simp
    next
      case some
      from first_index_SomeD [OF some]
      have at: "take (length explanation_header) (drop j us) = explanation_header" by simp
      have "\<not> (is_space u \<and> (\<forall>x\<in>set (take j us). is_space x))"
      proof
        assume a: "is_space u \<and> (\<forall>x\<in>set (take j us). is_space x)"
        then have "\<forall>x\<in>set (take j us). is_space x" by simp
        from spaces_then_header [OF this at] have "lookahead_holds us" .
        with a not_yet show False by (simp add: lookahead_holds_space)
      qed
      then have "rev (dropWhile is_space (rev (take (Suc j) (u # us)))) =
                 u # rev (dropWhile is_space (rev (take j us)))"
        by (simp add: rstrip_Cons)
      with not_yet here some Cons.IH show ?thesis by simp
    qed
  qed
qed

subsection \<open>The formula expression\<close>

text \<open>
  At the first \<^verbatim>\<open>FORMULA:\<close> header the expression matches if an \<^verbatim>\<open>EXPLANATION:\<close> header
  follows, and then captures the text between them without the whitespace around it. If
  none follows, no later start index matches either.
\<close>

lemma first_lookahead_None_iff:
  "first_lookahead inp = None \<longleftrightarrow> first_index explanation_header inp = None"
  by (simp only: first_lookahead_first_index [of inp] option.map_disc_iff)

lemma first_lookahead_None_spaces:
  "first_lookahead (dropWhile is_space inp) = None \<Longrightarrow> first_lookahead inp = None"
  by (simp only: first_lookahead_None_iff first_index_skip_spaces [of inp] option.map_disc_iff)

lemma no_header_no_lookahead:
  assumes "first_index explanation_header inp = None"
  shows "first_lookahead (dropWhile is_space (drop n inp)) = None"
proof -
  from assms have "first_index explanation_header (drop n inp) = None"
    by (rule first_index_None_drop)
  then have "first_index explanation_header
      (drop (length (takeWhile is_space (drop n inp))) (drop n inp)) = None"
    by (rule first_index_None_drop)
  then have "first_index explanation_header (dropWhile is_space (drop n inp)) = None"
    by (simp only: dropWhile_eq_drop [symmetric])
  then show ?thesis by (simp only: first_lookahead_None_iff)
qed

lemma m_open_lazy:
  "m (GOpen (LazyStar AnyUnit (GClose (Look (Star Space (Star Newline
        (Lit explanation_header Accept))) Accept)))) i inp g c =
     map_option (\<lambda>k. (i + k, Some (i, i + k))) (first_lookahead inp)"
  by (simp only: m.simps(9) m_lazy_body)

lemma m_formula_tail_fails:
  "first_lookahead inp = None \<Longrightarrow>
   m (Star Newline (GOpen (LazyStar AnyUnit (GClose (Look (Star Space (Star Newline
        (Lit explanation_header Accept))) Accept))))) i inp g c = None"
proof (induction inp arbitrary: i)
  case Nil
  then show ?case by (simp only: m.simps(5) m_open_lazy option.map)
next
  case (Cons u us)
  from Cons.prems have "first_lookahead us = None" by (simp split: if_splits)
  from Cons.IH [OF this]
  have ih: "m (Star Newline (GOpen (LazyStar AnyUnit (GClose (Look (Star Space (Star Newline
        (Lit explanation_header Accept))) Accept))))) (Suc i) us g c = None" .
  from Cons.prems show ?case
    by (simp only: m.simps(6) ih m_open_lazy option.map option.case if_cancel)
qed

lemma m_formula_tail:
  "m (Star Space (Star Newline (GOpen (LazyStar AnyUnit (GClose (Look (Star Space (Star Newline
        (Lit explanation_header Accept))) Accept)))))) i inp g c =
     map_option
       (\<lambda>k. (i + length (takeWhile is_space inp) + k,
             Some (i + length (takeWhile is_space inp), i + length (takeWhile is_space inp) + k)))
       (first_lookahead (dropWhile is_space inp))"
proof (induction inp arbitrary: i)
  case Nil
  show ?case
    by (simp only: m.simps(5) m_open_lazy dropWhile.simps takeWhile.simps list.size add_0_right)
next
  case (Cons u us)
  consider (found) "is_space u" "first_lookahead (dropWhile is_space us) \<noteq> None"
    | (fails) "is_space u" "first_lookahead (dropWhile is_space us) = None"
    | (stop) "\<not> is_space u" by blast
  then show ?case
  proof cases
    case found
    then obtain k where k: "first_lookahead (dropWhile is_space us) = Some k" by blast
    from found(1) k show ?thesis
      by (simp add: Cons.IH [of "Suc i"] del: m.simps)
        (simp add: Cons.IH [of "Suc i"])
  next
    case fails
    from first_lookahead_None_spaces [OF fails(2)] have "first_lookahead us = None" .
    with fails(1) have "first_lookahead (u # us) = None"
      using first_lookahead_None_iff [of "u # us"] first_lookahead_None_iff [of us]
        first_index_space [of u us] by simp
    from m_formula_tail_fails [OF this]
    have "m (Star Newline (GOpen (LazyStar AnyUnit (GClose (Look (Star Space (Star Newline
        (Lit explanation_header Accept))) Accept))))) i (u # us) g c = None" .
    with fails show ?thesis
      by (simp only: m.simps(6) in_class.simps Cons.IH [of "Suc i"] if_True option.map
          option.case dropWhile.simps)
  next
    case stop
    with newline_is_space have "u \<noteq> 0x0A" by auto
    with stop show ?thesis
      by (simp only: m.simps(6) in_class.simps if_False m_open_lazy dropWhile.simps
          takeWhile.simps list.size add_0_right)
  qed
qed

lemma formula_header_nonempty: "formula_header \<noteq> []" "[] \<noteq> formula_header"
  by (simp_all add: formula_header_code)

lemma m_formula_rx:
  "m formula_rx i inp 0 None =
     (if take (length formula_header) inp = formula_header
      then map_option
        (\<lambda>k. (i + length formula_header
                 + length (takeWhile is_space (drop (length formula_header) inp)) + k,
               Some (i + length formula_header
                 + length (takeWhile is_space (drop (length formula_header) inp)),
                     i + length formula_header
                 + length (takeWhile is_space (drop (length formula_header) inp)) + k)))
        (first_lookahead (dropWhile is_space (drop (length formula_header) inp)))
      else None)"
  by (simp only: formula_rx_def m.simps(2) m_formula_tail)

lemma m_formula_rx_no_header:
  "first_index explanation_header inp = None \<Longrightarrow> m formula_rx i inp 0 None = None"
  by (simp only: m_formula_rx no_header_no_lookahead option.map if_cancel)

lemma search_formula_no_explanation:
  "first_index explanation_header inp = None \<Longrightarrow> search formula_rx s i inp = None"
proof (induction inp arbitrary: i)
  case Nil
  then show ?case
    by (simp only: search.simps [of formula_rx s i "[]"] m_formula_rx_no_header option.case
        list.case)
next
  case (Cons u us)
  from Cons.prems have "first_index explanation_header us = None"
    by (rule first_index_None_tl)
  from Cons.IH [OF this] have "search formula_rx s (Suc i) us = None" .
  with Cons.prems show ?case
    by (simp only: search.simps [of formula_rx s i "u # us"] m_formula_rx_no_header option.case
        list.case)
qed

lemma search_formula_no_formula:
  "first_index formula_header inp = None \<Longrightarrow> search formula_rx s i inp = None"
proof (induction inp arbitrary: i)
  case Nil
  have "m formula_rx i [] 0 None = None"
    using formula_header_nonempty by (simp add: m_formula_rx)
  then show ?case
    by (simp only: search.simps [of formula_rx s i "[]"] option.case list.case)
next
  case (Cons u us)
  from Cons.prems have a: "take (length formula_header) (u # us) \<noteq> formula_header"
    and b: "first_index formula_header us = None"
    by (simp_all split: if_splits)
  from a have "m formula_rx i (u # us) 0 None = None"
    by (simp only: m_formula_rx if_False)
  with Cons.IH [OF b] show ?case
    by (simp only: search.simps [of formula_rx s i "u # us"] option.case list.case)
qed

lemma explanation_not_in_formula_header:
  "first_index explanation_header (formula_header @ rest) =
     map_option (\<lambda>n. length formula_header + n) (first_index explanation_header rest)"
  by (simp add: formula_header_code explanation_header_code option.map_comp comp_def)

lemma search_formula_cut_off:
  assumes "first_index formula_header inp = Some p"
    and "first_index explanation_header (drop (p + length formula_header) inp) = None"
  shows "search formula_rx s i inp = None"
  using assms
proof (induction inp arbitrary: i p)
  case Nil
  then show ?case using formula_header_nonempty by simp
next
  case (Cons u us)
  consider (here) "take (length formula_header) (u # us) = formula_header"
    | (later) "take (length formula_header) (u # us) \<noteq> formula_header" by blast
  then show ?case
  proof cases
    case here
    with Cons.prems(1) have p: "p = 0" by simp
    from here have "u # us = formula_header @ drop (length formula_header) (u # us)"
      by (metis append_take_drop_id)
    then have "first_index explanation_header (u # us) =
        map_option (\<lambda>n. length formula_header + n)
          (first_index explanation_header (drop (length formula_header) (u # us)))"
      using explanation_not_in_formula_header [of "drop (length formula_header) (u # us)"]
      by simp
    with Cons.prems(2) p have "first_index explanation_header (u # us) = None" by simp
    then show ?thesis by (rule search_formula_no_explanation)
  next
    case later
    with Cons.prems(1) obtain p' where p: "p = Suc p'"
      and f: "first_index formula_header us = Some p'" by auto
    from Cons.prems(2) p
    have "first_index explanation_header (drop (p' + length formula_header) us) = None" by simp
    from Cons.IH [OF f this] have r: "search formula_rx s (Suc i) us = None" .
    from later have "m formula_rx i (u # us) 0 None = None"
      by (simp only: m_formula_rx if_False)
    with r show ?thesis
      by (simp only: search.simps [of formula_rx s i "u # us"] option.case list.case)
  qed
qed

lemma search_formula_found:
  assumes "first_index formula_header inp = Some p"
    and "first_lookahead (dropWhile is_space (drop (p + length formula_header) inp)) = Some k"
  shows "search formula_rx s i inp =
     Some \<lparr>index = i + p,
           end_index = i + p + length formula_header
             + length (takeWhile is_space (drop (p + length formula_header) inp)) + k,
           group1 = Some (take k (drop (i + p + length formula_header
             + length (takeWhile is_space (drop (p + length formula_header) inp))) s))\<rparr>"
  using assms
proof (induction inp arbitrary: i p)
  case Nil
  then show ?case using formula_header_nonempty by simp
next
  case (Cons u us)
  consider (here) "take (length formula_header) (u # us) = formula_header"
    | (later) "take (length formula_header) (u # us) \<noteq> formula_header" by blast
  then show ?case
  proof cases
    case here
    with Cons.prems(1) have p: "p = 0" by simp
    from Cons.prems(2) p
    have k: "first_lookahead (dropWhile is_space (drop (length formula_header) (u # us))) = Some k"
      by simp
    from here k p show ?thesis
      by (simp only: search.simps [of formula_rx s i "u # us"] m_formula_rx if_True option.map
          option.case prod.case) simp
  next
    case later
    with Cons.prems(1) obtain p' where p: "p = Suc p'"
      and f: "first_index formula_header us = Some p'" by auto
    from Cons.prems(2) p
    have "first_lookahead (dropWhile is_space (drop (p' + length formula_header) us)) = Some k"
      by simp
    from Cons.IH [OF f this, of "Suc i"] p
    have r: "search formula_rx s (Suc i) us =
      Some \<lparr>index = i + p,
           end_index = i + p + length formula_header
             + length (takeWhile is_space (drop (p + length formula_header) (u # us))) + k,
           group1 = Some (take k (drop (i + p + length formula_header
             + length (takeWhile is_space (drop (p + length formula_header) (u # us)))) s))\<rparr>"
      by simp
    from later have "m formula_rx i (u # us) 0 None = None"
      by (simp only: m_formula_rx if_False)
    with r show ?thesis
      by (simp only: search.simps [of formula_rx s i "u # us"] option.case list.case)
  qed
qed

lemma lstrip_take_lstrip:
  "dropWhile P (take n (dropWhile P xs)) = take n (dropWhile P xs)"
proof -
  consider (nil) "dropWhile P xs = []"
    | (cons) v vs where "dropWhile P xs = v # vs" by (meson list.exhaust)
  then show ?thesis
  proof cases
    case nil
    show ?thesis unfolding nil by simp
  next
    case cons
    with hd_dropWhile [of P xs] have "\<not> P v" by simp
    with cons show ?thesis by (cases n) simp_all
  qed
qed

lemma captured_formula:
  assumes j: "first_index explanation_header rest = Some j"
    and k: "first_lookahead (dropWhile is_space rest) = Some k"
  shows "take k (dropWhile is_space rest) = trim (take j rest)"
proof -
  define w where "w = length (takeWhile is_space rest)"
  define X where "X = dropWhile is_space rest"
  from j first_index_skip_spaces [of rest]
  obtain j' where j': "first_index explanation_header X = Some j'" and jj: "j = w + j'"
    by (auto simp add: w_def X_def)
  from k j' first_lookahead_first_index [of X]
  have kk: "k = length (rev (dropWhile is_space (rev (take j' X))))"
    by (simp add: X_def)
  have "k \<le> length (take j' X)"
    unfolding kk by (rule rstrip_length_le)
  then have "k \<le> j'" by simp
  then have "take k X = take k (take j' X)" by (simp add: min_absorb1)
  also have "\<dots> = rev (dropWhile is_space (rev (take j' X)))"
    unfolding kk by (rule rstrip_is_take [symmetric])
  finally have g: "take k X = rev (dropWhile is_space (rev (take j' X)))" .
  have "take j rest = take w rest @ take j' (drop w rest)"
    unfolding jj by (rule take_add)
  also have "take w rest = takeWhile is_space rest"
    unfolding w_def by (rule takeWhile_eq_take [symmetric])
  also have "drop w rest = X"
    unfolding w_def X_def by (rule dropWhile_eq_drop [symmetric])
  finally have t: "take j rest = takeWhile is_space rest @ take j' X" .
  have "dropWhile is_space (takeWhile is_space rest @ take j' X) =
      dropWhile is_space (take j' X)"
    by (rule dropWhile_append2) (auto dest: set_takeWhileD)
  then have "dropWhile is_space (take j rest) = dropWhile is_space (take j' X)"
    by (simp only: t)
  also have "\<dots> = take j' X"
    unfolding X_def by (rule lstrip_take_lstrip)
  finally have "trim (take j rest) = rev (dropWhile is_space (rev (take j' X)))"
    by (simp only: trim_def)
  with g show ?thesis by (simp only: X_def)
qed

lemma exec_formula_none:
  assumes "spec_formula_segment raw = None"
  shows "exec formula_rx raw = None"
proof -
  consider (no_formula) "first_index formula_header raw = None"
    | (cut) p where "first_index formula_header raw = Some p"
        "first_index explanation_header (drop (p + length formula_header) raw) = None"
    using assms by (auto simp add: spec_formula_segment_def split: option.splits)
  then show ?thesis
  proof cases
    case no_formula
    then show ?thesis unfolding exec_def by (rule search_formula_no_formula)
  next
    case cut
    then show ?thesis unfolding exec_def by (rule search_formula_cut_off)
  qed
qed

lemma exec_formula_some:
  assumes "spec_formula_segment raw = Some f"
  shows "\<exists>mt. exec formula_rx raw = Some mt \<and> group1 mt = Some (trim f)"
proof -
  from assms obtain p j where p: "first_index formula_header raw = Some p"
    and j: "first_index explanation_header (drop (p + length formula_header) raw) = Some j"
    and f: "f = take j (drop (p + length formula_header) raw)"
    by (auto simp add: spec_formula_segment_def split: option.splits)
  define rest where "rest = drop (p + length formula_header) raw"
  have "first_index explanation_header (dropWhile is_space rest) \<noteq> None"
  proof
    assume "first_index explanation_header (dropWhile is_space rest) = None"
    then have "first_index explanation_header rest = None"
      by (simp only: first_index_skip_spaces [of rest] option.map)
    with j show False by (simp add: rest_def)
  qed
  then obtain k where k: "first_lookahead (dropWhile is_space rest) = Some k"
    using first_lookahead_None_iff [of "dropWhile is_space rest"] by auto
  have d: "drop (0 + p + length formula_header + length (takeWhile is_space rest)) raw =
      dropWhile is_space rest"
    by (simp add: rest_def dropWhile_eq_drop add.commute)
  from j k have "take k (dropWhile is_space rest) = trim (take j rest)"
    unfolding rest_def by (rule captured_formula)
  with d f have "take k (drop (0 + p + length formula_header
      + length (takeWhile is_space rest)) raw) = trim f"
    by (simp only: rest_def)
  with search_formula_found [OF p k [unfolded rest_def], of raw 0] show ?thesis
    by (simp add: exec_def rest_def)
qed

subsection \<open>The explanation expression\<close>

text \<open>
  The expression matches at the first \<^verbatim>\<open>EXPLANATION:\<close> header and captures everything
  after it but the leading whitespace.
\<close>

lemma m_any_close:
  "m (Star AnyUnit (GClose Accept)) i inp g c = Some (i + length inp, Some (g, i + length inp))"
  by (induction inp arbitrary: i) simp_all

lemma m_explanation_tail:
  "m (Star Space (Star Newline (GOpen (Star AnyUnit (GClose Accept))))) i inp g c =
     Some (i + length inp, Some (i + length (takeWhile is_space inp), i + length inp))"
proof (induction inp arbitrary: i)
  case Nil
  show ?case
    by (simp only: m.simps(5) [of Space] m.simps(5) [of Newline] m.simps(9) m_any_close
        takeWhile.simps list.size add_0_right)
next
  case (Cons u us)
  consider (space) "is_space u" | (stop) "\<not> is_space u" by blast
  then show ?case
  proof cases
    case space
    then show ?thesis
      by (simp only: m.simps(6) [of Space] in_class.simps if_True Cons.IH [of "Suc i"]
          option.case) simp
  next
    case stop
    with newline_is_space have "u \<noteq> 0x0A" by auto
    with stop show ?thesis
      by (simp only: m.simps(6) [of Space] m.simps(6) [of Newline] m.simps(9) in_class.simps
          if_False m_any_close takeWhile.simps list.size add_0_right)
  qed
qed

lemma m_explanation_rx:
  "m explanation_rx i inp 0 None =
     (if take (length explanation_header) inp = explanation_header
      then Some (i + length explanation_header + length (drop (length explanation_header) inp),
        Some (i + length explanation_header
                + length (takeWhile is_space (drop (length explanation_header) inp)),
              i + length explanation_header + length (drop (length explanation_header) inp)))
      else None)"
  by (simp only: explanation_rx_def m.simps(2) m_explanation_tail)

lemma search_explanation_none:
  "first_index explanation_header inp = None \<Longrightarrow> search explanation_rx s i inp = None"
proof (induction inp arbitrary: i)
  case Nil
  have "m explanation_rx i [] 0 None = None"
    using explanation_header_nonempty by (simp add: m_explanation_rx)
  then show ?case
    by (simp only: search.simps [of explanation_rx s i "[]"] option.case list.case)
next
  case (Cons u us)
  from Cons.prems have a: "take (length explanation_header) (u # us) \<noteq> explanation_header"
    and b: "first_index explanation_header us = None"
    by (simp_all split: if_splits)
  from a have "m explanation_rx i (u # us) 0 None = None"
    by (simp only: m_explanation_rx if_False)
  with Cons.IH [OF b] show ?case
    by (simp only: search.simps [of explanation_rx s i "u # us"] option.case list.case)
qed

lemma search_explanation_found:
  assumes "first_index explanation_header inp = Some q"
  shows "search explanation_rx s i inp =
     Some \<lparr>index = i + q,
           end_index = i + q + length explanation_header
             + length (drop (q + length explanation_header) inp),
           group1 = Some (take
             (length (drop (q + length explanation_header) inp)
                - length (takeWhile is_space (drop (q + length explanation_header) inp)))
             (drop (i + q + length explanation_header
                + length (takeWhile is_space (drop (q + length explanation_header) inp))) s))\<rparr>"
  using assms
proof (induction inp arbitrary: i q)
  case Nil
  then show ?case using explanation_header_nonempty by simp
next
  case (Cons u us)
  consider (here) "take (length explanation_header) (u # us) = explanation_header"
    | (later) "take (length explanation_header) (u # us) \<noteq> explanation_header" by blast
  then show ?case
  proof cases
    case here
    with Cons.prems have q: "q = 0" by simp
    from here q show ?thesis
      by (simp only: search.simps [of explanation_rx s i "u # us"] m_explanation_rx if_True
          option.case prod.case) simp
  next
    case later
    with Cons.prems obtain q' where q: "q = Suc q'"
      and f: "first_index explanation_header us = Some q'" by auto
    from Cons.IH [OF f, of "Suc i"] q
    have r: "search explanation_rx s (Suc i) us =
     Some \<lparr>index = i + q,
           end_index = i + q + length explanation_header
             + length (drop (q + length explanation_header) (u # us)),
           group1 = Some (take
             (length (drop (q + length explanation_header) (u # us))
                - length (takeWhile is_space (drop (q + length explanation_header) (u # us))))
             (drop (i + q + length explanation_header
                + length (takeWhile is_space (drop (q + length explanation_header) (u # us)))) s))\<rparr>"
      by simp
    from later have "m explanation_rx i (u # us) 0 None = None"
      by (simp only: m_explanation_rx if_False)
    with r show ?thesis
      by (simp only: search.simps [of explanation_rx s i "u # us"] option.case list.case)
  qed
qed

lemma exec_explanation_none:
  "spec_explanation_segment raw = None \<Longrightarrow> exec explanation_rx raw = None"
  unfolding exec_def
  by (rule search_explanation_none) (simp add: spec_explanation_segment_def split: option.splits)

lemma exec_explanation_some:
  assumes "spec_explanation_segment raw = Some e"
  shows "\<exists>mt. exec explanation_rx raw = Some mt \<and> group1 mt = Some (dropWhile is_space e)"
proof -
  from assms obtain q where q: "first_index explanation_header raw = Some q"
    and e: "e = drop (q + length explanation_header) raw"
    by (auto simp add: spec_explanation_segment_def split: option.splits)
  define w where "w = length (takeWhile is_space e)"
  have "w \<le> length e" unfolding w_def by (rule length_takeWhile_le)
  have d: "drop (0 + q + length explanation_header + w) raw = dropWhile is_space e"
    by (simp add: e w_def dropWhile_eq_drop add.commute)
  have "length (dropWhile is_space e) = length e - w"
    by (simp add: w_def dropWhile_eq_drop)
  then have "take (length e - w) (dropWhile is_space e) = dropWhile is_space e"
    by simp
  with d have "take (length e - w) (drop (0 + q + length explanation_header + w) raw) =
      dropWhile is_space e"
    by (simp only:)
  with search_explanation_found [OF q, of raw 0] show ?thesis
    by (simp add: exec_def e w_def)
qed

lemma formula_segment_explanation_segment:
  assumes "spec_formula_segment raw = Some f"
  shows "\<exists>e. spec_explanation_segment raw = Some e"
proof -
  from assms obtain p j where
    j: "first_index explanation_header (drop (p + length formula_header) raw) = Some j"
    by (auto simp add: spec_formula_segment_def split: option.splits)
  with first_index_None_drop [of explanation_header raw "p + length formula_header"]
  have "first_index explanation_header raw \<noteq> None" by auto
  then show ?thesis by (auto simp add: spec_explanation_segment_def)
qed

lemma header_match_has_group:
  "(exec formula_rx raw = Some fm \<longrightarrow> group1 fm \<noteq> None) \<and>
   (exec explanation_rx raw = Some em \<longrightarrow> group1 em \<noteq> None)"
proof (intro conjI impI)
  assume fm: "exec formula_rx raw = Some fm"
  with exec_formula_none [of raw] obtain f where "spec_formula_segment raw = Some f"
    by fastforce
  from exec_formula_some [OF this] fm show "group1 fm \<noteq> None" by auto
next
  assume em: "exec explanation_rx raw = Some em"
  with exec_explanation_none [of raw] obtain e where "spec_explanation_segment raw = Some e"
    by fastforce
  from exec_explanation_some [OF this] em show "group1 em \<noteq> None" by auto
qed

subsection \<open>The quotes expression\<close>

text \<open>
  The expression is anchored at both ends, so it matches the whole string or nothing:
  exactly the strings of \<open>in_outer_quotes\<close>, capturing what lies between the two ends.
\<close>

lemma quote_is_dot: "in_class Quote u \<Longrightarrow> in_class Dot u"
  by (auto simp add: is_line_terminator_def)

lemma m_quote_end:
  "m (GClose (One Quote (Eol Accept))) i (u # us) g c =
     (if in_class Quote u \<and> us = [] then Some (Suc i, Some (g, i)) else None)"
  by simp

lemma m_quotes_tail:
  "m (Star Dot (GClose (One Quote (Eol Accept)))) i inp g c =
     (if inp \<noteq> [] \<and> in_class Quote (last inp) \<and> list_all (in_class Dot) (butlast inp)
      then Some (i + length inp, Some (g, i + length inp - 1))
      else None)"
proof (induction inp arbitrary: i)
  case Nil
  show ?case by simp
next
  case (Cons u us)
  consider (more) "in_class Dot u" "us \<noteq> []" "in_class Quote (last us)"
      "list_all (in_class Dot) (butlast us)"
    | (last) "in_class Dot u" "us = []"
    | (broken) "in_class Dot u" "us \<noteq> []"
      "\<not> (in_class Quote (last us) \<and> list_all (in_class Dot) (butlast us))"
    | (terminator) "\<not> in_class Dot u" by blast
  then show ?case
  proof cases
    case more
    then have "m (Star Dot (GClose (One Quote (Eol Accept)))) (Suc i) us g c =
        Some (Suc i + length us, Some (g, Suc i + length us - 1))"
      by (simp only: Cons.IH [of "Suc i"] simp_thms if_True)
    with more show ?thesis
      by (simp only: m.simps(6) [of Dot] if_True option.case) (simp del: in_class.simps)
  next
    case last
    then have "m (Star Dot (GClose (One Quote (Eol Accept)))) (Suc i) us g c = None"
      by (simp only: Cons.IH [of "Suc i"]) simp
    with last show ?thesis
      by (simp only: m.simps(6) [of Dot] if_True option.case m_quote_end) simp
  next
    case broken
    then have "m (Star Dot (GClose (One Quote (Eol Accept)))) (Suc i) us g c = None"
      by (simp only: Cons.IH [of "Suc i"] simp_thms if_False)
    with broken show ?thesis
      by (simp only: m.simps(6) [of Dot] if_True option.case m_quote_end)
        (auto simp del: in_class.simps)
  next
    case terminator
    with quote_is_dot [of u] have "\<not> in_class Quote u" by blast
    with terminator show ?thesis
      by (simp only: m.simps(6) [of Dot] if_False m_quote_end)
        (auto simp del: in_class.simps)
  qed
qed

lemma m_quotes_rx:
  "m quotes_rx i inp 0 None =
     (if i = 0 \<and> in_outer_quotes inp then Some (length inp, Some (1, length inp - 1)) else None)"
proof (cases inp)
  case Nil
  then show ?thesis by (simp add: quotes_rx_def in_outer_quotes_def)
next
  case outer: (Cons q r1)
  show ?thesis
  proof (cases r1)
    case Nil
    with outer show ?thesis by (simp add: quotes_rx_def in_outer_quotes_def)
  next
    case (Cons d r2)
    have "m quotes_rx i (q # d # r2) 0 None =
        (if i = 0 \<and> in_class Quote q \<and> in_class Dot d
         then m (Star Dot (GClose (One Quote (Eol Accept)))) (Suc (Suc 0)) r2 (Suc 0) None
         else None)"
      by (simp add: quotes_rx_def del: m.simps(5,6) in_class.simps)
    also have "\<dots> =
        (if i = 0 \<and> in_outer_quotes (q # d # r2)
         then Some (length (q # d # r2), Some (1, length (q # d # r2) - 1)) else None)"
      by (simp only: m_quotes_tail)
        (auto simp add: in_outer_quotes_def Suc_le_eq simp del: in_class.simps)
    finally show ?thesis by (simp only: outer Cons)
  qed
qed

lemma search_quotes_later: "0 < i \<Longrightarrow> search quotes_rx s i inp = None"
proof (induction inp arbitrary: i)
  case Nil
  then show ?case
    by (simp only: search.simps [of quotes_rx s i "[]"] m_quotes_rx) simp
next
  case (Cons u us)
  from Cons.IH [of "Suc i"] have "search quotes_rx s (Suc i) us = None" by simp
  with Cons.prems show ?case
    by (simp only: search.simps [of quotes_rx s i "u # us"] m_quotes_rx) simp
qed

lemma exec_quotes_rx:
  "exec quotes_rx s =
     (if in_outer_quotes s
      then Some \<lparr>index = 0, end_index = length s, group1 = Some (butlast (tl s))\<rparr>
      else None)"
proof -
  have later: "(case s of [] \<Rightarrow> None | u # us \<Rightarrow> search quotes_rx s (Suc 0) us) = None"
    by (cases s) (simp_all add: search_quotes_later del: search.simps)
  have "take (length s - 1 - 1) (drop 1 s) = butlast (tl s)"
    by (simp add: butlast_conv_take drop_Suc)
  with later show ?thesis
    by (simp only: exec_def search.simps [of quotes_rx s 0 s] m_quotes_rx) simp
qed

lemma replace_quotes:
  "replace_by_group1 quotes_rx s = (if in_outer_quotes s then butlast (tl s) else s)"
  by (simp add: replace_by_group1_def exec_quotes_rx)

subsection \<open>The parser in terms of the segments\<close>

lemma parse_response_fails:
  "spec_formula_segment raw = None \<Longrightarrow>
   parse_response raw = Inl (ErrorObj parse_failure_message)"
  by (simp add: parse_response_def exec_formula_none)

lemma parse_response_succeeds:
  assumes f: "spec_formula_segment raw = Some f"
    and e: "spec_explanation_segment raw = Some e"
  shows "parse_response raw =
     Inr \<lparr>cleanFormula = (if in_outer_quotes (trim f) then butlast (tl (trim f)) else trim f),
          explanationText = trim e\<rparr>"
proof -
  from exec_formula_some [OF f] obtain fm where
    fm: "exec formula_rx raw = Some fm" "group1 fm = Some (trim f)" by blast
  from exec_explanation_some [OF e] obtain em where
    em: "exec explanation_rx raw = Some em" "group1 em = Some (dropWhile is_space e)" by blast
  from fm em show ?thesis
    by (simp add: parse_response_def replace_quotes trim_trim trim_lstrip)
qed

lemma first_index_append_stable:
  "first_index x (a @ x) = Some (length a) \<Longrightarrow> first_index x (a @ x @ b) = Some (length a)"
proof (induction a)
  case Nil
  then show ?case by (cases x; cases b) simp_all
next
  case (Cons u a)
  from Cons.prems have n: "take (length x) (u # a @ x) \<noteq> x"
    and r: "first_index x (a @ x) = Some (length a)"
    by (auto split: if_splits)
  have "take (length x) ((u # a @ x) @ b) = take (length x) (u # a @ x)"
    by (simp only: take_append) simp
  with n have "take (length x) (u # a @ x @ b) \<noteq> x" by simp
  with Cons.IH [OF r] show ?case by simp
qed

lemma clean_formula_empty:
  "(if in_outer_quotes t then butlast (tl t) else t) = [] \<longleftrightarrow> t = []"
proof -
  have "in_outer_quotes t \<Longrightarrow> butlast (tl t) \<noteq> [] \<and> t \<noteq> []"
  proof -
    assume "in_outer_quotes t"
    then have l: "3 \<le> length t" by (simp add: in_outer_quotes_def)
    have "length (butlast (tl t)) = length t - 2" by simp
    with l have "length (butlast (tl t)) = Suc (length t - 3)" by simp
    then have "butlast (tl t) \<noteq> []" by (metis Zero_not_Suc list.size(3))
    moreover from l have "t \<noteq> []" by auto
    ultimately show ?thesis by simp
  qed
  then show ?thesis by auto
qed

lemma occurrence_first_index:
  "take (length x) (drop n s) = x \<Longrightarrow> n \<le> length s \<Longrightarrow> \<exists>p\<le>n. first_index x s = Some p"
proof (induction s arbitrary: n)
  case Nil
  then show ?case by simp
next
  case (Cons u us)
  consider (here) "take (length x) (u # us) = x" | (later) "take (length x) (u # us) \<noteq> x"
    by blast
  then show ?case
  proof cases
    case here
    then show ?thesis by simp
  next
    case later
    with Cons.prems(1) obtain n' where n: "n = Suc n'" by (cases n) auto
    with Cons.prems have "take (length x) (drop n' us) = x" and "n' \<le> length us" by simp_all
    from Cons.IH [OF this] obtain p' where "p' \<le> n'" and "first_index x us = Some p'" by blast
    with later n show ?thesis by simp
  qed
qed

lemma formula_segment_decomposition:
  "spec_formula_segment raw \<noteq> None \<longleftrightarrow>
     (\<exists>pre mid post. raw = pre @ formula_header @ mid @ explanation_header @ post)"
proof
  assume "spec_formula_segment raw \<noteq> None"
  then obtain p j where p: "first_index formula_header raw = Some p"
    and j: "first_index explanation_header (drop (p + length formula_header) raw) = Some j"
    by (auto simp add: spec_formula_segment_def split: option.splits)
  define rest where "rest = drop (p + length formula_header) raw"
  from first_index_SomeD [OF p]
  have "take (length formula_header) (drop p raw) = formula_header" by simp
  then have "drop p raw = formula_header @ rest"
    by (metis append_take_drop_id drop_drop add.commute rest_def)
  then have a: "raw = take p raw @ formula_header @ rest"
    by (metis append_take_drop_id)
  from first_index_SomeD [OF j]
  have "take (length explanation_header) (drop j rest) = explanation_header"
    by (simp add: rest_def)
  then have "drop j rest = explanation_header @ drop (length explanation_header) (drop j rest)"
    by (metis append_take_drop_id)
  then have "rest = take j rest @ explanation_header @ drop (length explanation_header) (drop j rest)"
    by (metis append_take_drop_id)
  with a have "raw = take p raw @ formula_header @ take j rest @ explanation_header
      @ drop (length explanation_header) (drop j rest)"
    by simp
  then show "\<exists>pre mid post. raw = pre @ formula_header @ mid @ explanation_header @ post"
    by blast
next
  assume "\<exists>pre mid post. raw = pre @ formula_header @ mid @ explanation_header @ post"
  then obtain pre mid post where
    raw: "raw = pre @ formula_header @ mid @ explanation_header @ post" by blast
  have "take (length formula_header) (drop (length pre) raw) = formula_header"
    by (simp add: raw)
  moreover have "length pre \<le> length raw" by (simp add: raw)
  ultimately obtain p where pl: "p \<le> length pre" and p: "first_index formula_header raw = Some p"
    using occurrence_first_index [of formula_header "length pre" raw] by blast
  define rest where "rest = drop (p + length formula_header) raw"
  define n where "n = length pre - p + length mid"
  from pl have "p + length formula_header + n = length pre + length formula_header + length mid"
    by (simp add: n_def)
  then have d: "drop n rest = explanation_header @ post"
    by (simp add: rest_def raw add.commute)
  then have t: "take (length explanation_header) (drop n rest) = explanation_header"
    by simp
  from d explanation_header_nonempty have "drop n rest \<noteq> []" by simp
  then have "n \<le> length rest" by simp
  from occurrence_first_index [OF t this]
  have "first_index explanation_header rest \<noteq> None" by auto
  with p show "spec_formula_segment raw \<noteq> None"
    by (auto simp add: spec_formula_segment_def rest_def)
qed

section \<open>The response parser\<close>

text \<open>
  C1 (as amended). When the response has a formula segment \<open>f\<close>, parsing succeeds and the
  formula it returns is \<open>trim f\<close> without its first and last code unit if and only if
  \<open>trim f\<close> is at least three code units long, begins with a straight double or single
  quote, ends with a straight double or single quote (the two need not be the same) and has
  no line terminator in between; otherwise it is \<open>trim f\<close> untouched. In particular the
  response with the formula \<^verbatim>\<open>"=SUM(A1:A10)"\<close> yields \<^verbatim>\<open>=SUM(A1:A10)\<close>, and the formula
  \<^verbatim>\<open>=TEXT(A1,"yyyy")\<close> is returned unchanged.
\<close>

theorem C1_outer_quotes:
  "(spec_formula_segment raw = Some f \<longrightarrow>
      (\<exists>x. parse_response raw = Inr x \<and>
           cleanFormula x =
             (if in_outer_quotes (trim f) then butlast (tl (trim f)) else trim f))) \<and>
   parse_response response_quoted_sum =
     Inr \<lparr>cleanFormula = js ''=SUM(A1:A10)'', explanationText = js ''1. adds values''\<rparr> \<and>
   parse_response response_text_formula =
     Inr \<lparr>cleanFormula = js ''=TEXT(A1,'' @ [0x22] @ js ''yyyy'' @ [0x22] @ js '')'',
          explanationText = js ''formats date''\<rparr>"
proof (intro conjI impI)
  assume f: "spec_formula_segment raw = Some f"
  from formula_segment_explanation_segment [OF f]
  obtain e where e: "spec_explanation_segment raw = Some e" by blast
  from parse_response_succeeds [OF f e]
  show "\<exists>x. parse_response raw = Inr x \<and>
      cleanFormula x = (if in_outer_quotes (trim f) then butlast (tl (trim f)) else trim f)"
    by simp
next
  show "parse_response response_quoted_sum =
     Inr \<lparr>cleanFormula = js ''=SUM(A1:A10)'', explanationText = js ''1. adds values''\<rparr>"
    by code_simp
next
  show "parse_response response_text_formula =
     Inr \<lparr>cleanFormula = js ''=TEXT(A1,'' @ [0x22] @ js ''yyyy'' @ [0x22] @ js '')'',
          explanationText = js ''formats date''\<rparr>"
    by code_simp
qed

theorem C1_outer_quotes_witness:
  "spec_formula_segment response_quoted_sum = Some ([0x0A, 0x22] @ js ''=SUM(A1:A10)'' @ [0x22, 0x0A, 0x0A]) \<and>
   in_outer_quotes (trim ([0x0A, 0x22] @ js ''=SUM(A1:A10)'' @ [0x22, 0x0A, 0x0A])) \<and>
   (\<exists>x. parse_response response_quoted_sum = Inr x \<and>
     cleanFormula x = butlast (tl (trim ([0x0A, 0x22] @ js ''=SUM(A1:A10)'' @ [0x22, 0x0A, 0x0A]))))"
proof -
  have a: "spec_formula_segment response_quoted_sum =
      Some ([0x0A, 0x22] @ js ''=SUM(A1:A10)'' @ [0x22, 0x0A, 0x0A])"
    by code_simp
  have b: "in_outer_quotes (trim ([0x0A, 0x22] @ js ''=SUM(A1:A10)'' @ [0x22, 0x0A, 0x0A]))"
    by code_simp
  from C1_outer_quotes [of response_quoted_sum
      "[0x0A, 0x22] @ js ''=SUM(A1:A10)'' @ [0x22, 0x0A, 0x0A]"] a
  have "\<exists>x. parse_response response_quoted_sum = Inr x \<and>
     cleanFormula x =
       (if in_outer_quotes (trim ([0x0A, 0x22] @ js ''=SUM(A1:A10)'' @ [0x22, 0x0A, 0x0A]))
        then butlast (tl (trim ([0x0A, 0x22] @ js ''=SUM(A1:A10)'' @ [0x22, 0x0A, 0x0A])))
        else trim ([0x0A, 0x22] @ js ''=SUM(A1:A10)'' @ [0x22, 0x0A, 0x0A]))"
    by blast
  with b have "\<exists>x. parse_response response_quoted_sum = Inr x \<and>
     cleanFormula x = butlast (tl (trim ([0x0A, 0x22] @ js ''=SUM(A1:A10)'' @ [0x22, 0x0A, 0x0A])))"
    by (simp only: if_True)
  with a b show ?thesis by blast
qed

text \<open>
  The claim as written fails: a formula that opens with a double quote and closes with a
  single quote is not in a matching pair, and both are removed.
\<close>

theorem C1_mismatched_quotes_counterexample:
  "spec_formula_segment response_mismatched_quotes =
     Some ([0x22] @ js ''=A1'' @ [0x27] @ js '' '') \<and>
   parse_response response_mismatched_quotes =
     Inr \<lparr>cleanFormula = js ''=A1'', explanationText = js ''x''\<rparr> \<and>
   (0x22 :: code_unit) \<noteq> 0x27"
  by code_simp

text \<open>
  C2 (as amended). A response has no formula segment exactly when it holds no
  \<^verbatim>\<open>FORMULA:\<close> header with an \<^verbatim>\<open>EXPLANATION:\<close> header somewhere after it. Then parsing
  throws the error with the message \<^verbatim>\<open>Failed to parse AI response correctly\<close>, and a
  submission that received this response ends with exactly that message as the error,
  loading cleared, and the formula and the explanation both empty. Any other response,
  also one with nothing between the two headers, parses.
\<close>

theorem C2_parse_failure:
  "(spec_formula_segment raw = None \<longleftrightarrow>
      \<not> (\<exists>pre mid post. raw = pre @ formula_header @ mid @ explanation_header @ post)) \<and>
   (spec_formula_segment raw = None \<longrightarrow>
      parse_response raw = Inl (ErrorObj (js ''Failed to parse AI response correctly'')) \<and>
      (trim (description s) \<noteq> [] \<and> ai (build_prompt (description s)) = Resolved raw \<longrightarrow>
       fst (generateFormula (Some ai) s) =
         s\<lparr>formula := [], explanation := [], loading := False,
           error := Some (js ''Failed to parse AI response correctly'')\<rparr>)) \<and>
   (spec_formula_segment raw \<noteq> None \<longrightarrow> (\<exists>x. parse_response raw = Inr x))"
proof (intro conjI impI)
  from formula_segment_decomposition [of raw]
  show "spec_formula_segment raw = None \<longleftrightarrow>
      \<not> (\<exists>pre mid post. raw = pre @ formula_header @ mid @ explanation_header @ post)"
    by blast
next
  assume n: "spec_formula_segment raw = None"
  from parse_response_fails [OF n]
  show "parse_response raw = Inl (ErrorObj (js ''Failed to parse AI response correctly''))"
    by (simp only: parse_failure_message_def)
next
  assume n: "spec_formula_segment raw = None"
    and v: "trim (description s) \<noteq> [] \<and> ai (build_prompt (description s)) = Resolved raw"
  from parse_response_fails [OF n]
  have "parse_response raw = Inl (ErrorObj (js ''Failed to parse AI response correctly''))"
    by (simp only: parse_failure_message_def)
  with v show "fst (generateFormula (Some ai) s) =
         s\<lparr>formula := [], explanation := [], loading := False,
           error := Some (js ''Failed to parse AI response correctly'')\<rparr>"
    by (simp add: Let_def generateFormula_def start_def finish_def catch_block_def
        finally_block_def)
next
  assume "spec_formula_segment raw \<noteq> None"
  then obtain f where f: "spec_formula_segment raw = Some f" by blast
  from formula_segment_explanation_segment [OF f]
  obtain e where e: "spec_explanation_segment raw = Some e" by blast
  from parse_response_succeeds [OF f e] show "\<exists>x. parse_response raw = Inr x" by simp
qed

theorem C2_parse_failure_witness:
  "spec_formula_segment (js ''no headers here'') = None \<and>
   trim (description shown_state) \<noteq> [] \<and>
   rambling_service (build_prompt (description shown_state)) = Resolved (js ''no headers here'') \<and>
   parse_response (js ''no headers here'') =
     Inl (ErrorObj (js ''Failed to parse AI response correctly'')) \<and>
   fst (generateFormula (Some rambling_service) shown_state) =
     shown_state\<lparr>formula := [], explanation := [], loading := False,
       error := Some (js ''Failed to parse AI response correctly'')\<rparr>"
proof -
  have a: "spec_formula_segment (js ''no headers here'') = None" by code_simp
  have b: "trim (description shown_state) \<noteq> []" by code_simp
  have c: "rambling_service (build_prompt (description shown_state)) =
      Resolved (js ''no headers here'')"
    by (simp only: rambling_service_def)
  from C2_parse_failure [of "js ''no headers here''" shown_state rambling_service] a b c
  show ?thesis by blast
qed

text \<open>
  The claim as written fails: on a response with only a line break between the headers
  the formula expression matches with an empty group, and the response is parsed, with
  the empty string as the formula.
\<close>

theorem C2_empty_formula_counterexample:
  "exec formula_rx response_empty_formula =
     Some \<lparr>index = 0, end_index = 9, group1 = Some []\<rparr> \<and>
   parse_response response_empty_formula =
     Inr \<lparr>cleanFormula = [], explanationText = js ''x''\<rparr>"
  by code_simp

text \<open>
  C3 (as amended). When parsing succeeds, the response has a formula segment and an
  explanation segment; the formula returned is empty exactly when the formula segment is
  whitespace only, and the explanation returned is empty exactly when the explanation
  segment is whitespace only.
\<close>

theorem C3_fields_may_be_empty:
  "parse_response raw = Inr x \<Longrightarrow>
   \<exists>f e. spec_formula_segment raw = Some f \<and> spec_explanation_segment raw = Some e \<and>
     (cleanFormula x = [] \<longleftrightarrow> list_all is_space f) \<and>
     (explanationText x = [] \<longleftrightarrow> list_all is_space e)"
proof -
  assume x: "parse_response raw = Inr x"
  with parse_response_fails [of raw] obtain f where f: "spec_formula_segment raw = Some f"
    by fastforce
  from formula_segment_explanation_segment [OF f]
  obtain e where e: "spec_explanation_segment raw = Some e" by blast
  from parse_response_succeeds [OF f e] x
  have "cleanFormula x = (if in_outer_quotes (trim f) then butlast (tl (trim f)) else trim f)"
    and "explanationText x = trim e" by simp_all
  then have "cleanFormula x = [] \<longleftrightarrow> list_all is_space f"
    and "explanationText x = [] \<longleftrightarrow> list_all is_space e"
    by (simp_all only: clean_formula_empty trim_eq_Nil)
  with f e show ?thesis by blast
qed

theorem C3_fields_may_be_empty_witness:
  "parse_response response_empty_formula = Inr \<lparr>cleanFormula = [], explanationText = js ''x''\<rparr> \<and>
   (\<exists>f e. spec_formula_segment response_empty_formula = Some f \<and>
     spec_explanation_segment response_empty_formula = Some e \<and>
     list_all is_space f \<and> \<not> list_all is_space e)"
proof -
  have p: "parse_response response_empty_formula =
      Inr \<lparr>cleanFormula = [], explanationText = js ''x''\<rparr>" by code_simp
  have n: "js ''x'' \<noteq> []" by code_simp
  from C3_fields_may_be_empty [OF p] n p show ?thesis by auto
qed

text \<open>
  The claim as written fails: on the two headers alone parsing succeeds and both fields
  are empty.
\<close>

theorem C3_both_fields_empty_counterexample:
  "parse_response response_headers_only = Inr \<lparr>cleanFormula = [], explanationText = []\<rparr>"
  by code_simp

text \<open>
  C8. When the text after the first \<^verbatim>\<open>FORMULA:\<close> header is \<open>a\<close>, then \<^verbatim>\<open>EXPLANATION:\<close>,
  then \<open>b\<close>, and this \<^verbatim>\<open>EXPLANATION:\<close> is the first one in it, the formula returned is
  made from \<open>a\<close> alone, whatever \<open>b\<close> holds: a formula that contains \<^verbatim>\<open>EXPLANATION:\<close> is
  cut at its first occurrence.
\<close>

theorem C8_cut_at_first_explanation_header:
  assumes "first_index formula_header raw = Some p"
    and "drop (p + length formula_header) raw = a @ explanation_header @ b"
    and "first_index explanation_header (a @ explanation_header) = Some (length a)"
  shows "\<exists>x. parse_response raw = Inr x \<and>
     cleanFormula x = (if in_outer_quotes (trim a) then butlast (tl (trim a)) else trim a)"
proof -
  from first_index_append_stable [OF assms(3), of b] assms(2)
  have "first_index explanation_header (drop (p + length formula_header) raw) = Some (length a)"
    by simp
  with assms(1,2) have f: "spec_formula_segment raw = Some a"
    by (simp add: spec_formula_segment_def)
  from formula_segment_explanation_segment [OF f]
  obtain e where e: "spec_explanation_segment raw = Some e" by blast
  from parse_response_succeeds [OF f e] show ?thesis by simp
qed

theorem C8_cut_at_first_explanation_header_witness:
  "first_index formula_header response_embedded_header = Some 0 \<and>
   drop (0 + length formula_header) response_embedded_header =
     ([0x0A] @ js ''=IF(A1,'' @ [0x22]) @ explanation_header @
     (js '' yes'' @ [0x22] @ js '',1)'' @ [0x0A] @ js ''EXPLANATION:'' @ [0x0A] @ js ''1. test'') \<and>
   first_index explanation_header (([0x0A] @ js ''=IF(A1,'' @ [0x22]) @ explanation_header) =
     Some (length ([0x0A] @ js ''=IF(A1,'' @ [0x22])) \<and>
   (\<exists>x. parse_response response_embedded_header = Inr x \<and>
     cleanFormula x = js ''=IF(A1,'' @ [0x22])"
proof -
  have a: "first_index formula_header response_embedded_header = Some 0" by code_simp
  have b: "drop (0 + length formula_header) response_embedded_header =
     ([0x0A] @ js ''=IF(A1,'' @ [0x22]) @ explanation_header @
     (js '' yes'' @ [0x22] @ js '',1)'' @ [0x0A] @ js ''EXPLANATION:'' @ [0x0A] @ js ''1. test'')"
    by code_simp
  have c: "first_index explanation_header (([0x0A] @ js ''=IF(A1,'' @ [0x22]) @ explanation_header) =
     Some (length ([0x0A] @ js ''=IF(A1,'' @ [0x22]))" by code_simp
  have d: "(if in_outer_quotes (trim ([0x0A] @ js ''=IF(A1,'' @ [0x22]))
       then butlast (tl (trim ([0x0A] @ js ''=IF(A1,'' @ [0x22])))
       else trim ([0x0A] @ js ''=IF(A1,'' @ [0x22])) = js ''=IF(A1,'' @ [0x22]" by code_simp
  from C8_cut_at_first_explanation_header [OF a b c] d a b c show ?thesis by simp
qed

section \<open>The request lifecycle\<close>

text \<open>
  C4 (as amended). On a submission with a non-blank description and a configured client,
  the state in which the request is sent has loading set and the error cleared; the
  description, the formula and the explanation of the earlier result are as they were.
\<close>

theorem C4_start_sets_loading:
  "trim (description s) \<noteq> [] \<Longrightarrow>
   start (Some ai) s =
     (s\<lparr>loading := True, error := None\<rparr>, Some (build_prompt (description s)))"
  by (simp add: start_def Let_def)

theorem C4_start_sets_loading_witness:
  "trim (description shown_state) \<noteq> [] \<and>
   start (Some answering_service) shown_state =
     (shown_state\<lparr>loading := True, error := None\<rparr>,
      Some (build_prompt (description shown_state)))"
  using C4_start_sets_loading [of shown_state answering_service]
  by (simp add: shown_state_def initial_state_def js_def trim_def is_space_def
      is_line_terminator_def)

text \<open>
  The claim as written fails: the first submission leaves the formula and the
  explanation of \<open>shown_state\<close> in place while its request is in flight.
\<close>

theorem C4_formula_not_cleared_counterexample:
  "snd (start (Some answering_service) shown_state) \<noteq> None \<and>
   formula (fst (start (Some answering_service) shown_state)) = js ''=A1'' \<and>
   explanation (fst (start (Some answering_service) shown_state)) = js ''old'' \<and>
   js ''=A1'' \<noteq> [] \<and> js ''old'' \<noteq> []"
  by (simp add: start_def Let_def shown_state_def initial_state_def js_def trim_def is_space_def
      is_line_terminator_def)

text \<open>
  C5. When the description is empty after trimming, \<^verbatim>\<open>generateFormula\<close> does nothing:
  the state it leaves is the state it found, and no request is sent.
\<close>

theorem C5_blank_submission_is_noop:
  "trim (description s) = [] \<Longrightarrow> generateFormula genAI s = (s, [])"
  by (simp add: generateFormula_def start_def)

theorem C5_blank_submission_witness:
  "trim (description (initial_state\<lparr>description := js ''   ''\<rparr>)) = [] \<and>
   generateFormula (Some Resolved) (initial_state\<lparr>description := js ''   ''\<rparr>) =
     (initial_state\<lparr>description := js ''   ''\<rparr>, [])"
  using C5_blank_submission_is_noop [of "initial_state\<lparr>description := js ''   ''\<rparr>" "Some Resolved"]
  by (simp add: js_def trim_def is_space_def)

text \<open>
  C6. When the client is not configured (\<^verbatim>\<open>genAI\<close> is \<^verbatim>\<open>null\<close>), a submission with a
  non-blank description fails in its first piece, before any \<^verbatim>\<open>await\<close>: an \<^verbatim>\<open>Error\<close> with
  the message \<^verbatim>\<open>API key not configured. Please add your Gemini API key to continue.\<close> is
  thrown and caught, so that the submission ends with exactly this message as the error,
  loading cleared and the formula and explanation empty; no request is sent. (The code
  has the one class \<^verbatim>\<open>Error\<close> for every failure; this path is the one the specification
  calls ConfigurationError.)
\<close>

theorem C6_not_configured:
  "trim (description s) \<noteq> [] \<Longrightarrow>
   start None s =
     (s\<lparr>formula := [], explanation := [], loading := False,
        error := Some (js ''API key not configured. Please add your Gemini API key to continue.'')\<rparr>,
      None) \<and>
   fst (start None s) =
     finally_block (catch_block
       (ErrorObj (js ''API key not configured. Please add your Gemini API key to continue.''))
       (s\<lparr>loading := True, error := None\<rparr>)) \<and>
   generateFormula None s =
     (s\<lparr>formula := [], explanation := [], loading := False,
        error := Some (js ''API key not configured. Please add your Gemini API key to continue.'')\<rparr>,
      [])"
  by (simp add: Let_def generateFormula_def start_def catch_block_def finally_block_def
      not_configured_message_def)

theorem C6_not_configured_witness:
  "trim (description shown_state) \<noteq> [] \<and>
   start None shown_state =
     (shown_state\<lparr>formula := [], explanation := [], loading := False,
        error := Some (js ''API key not configured. Please add your Gemini API key to continue.'')\<rparr>,
      None) \<and>
   generateFormula None shown_state =
     (shown_state\<lparr>formula := [], explanation := [], loading := False,
        error := Some (js ''API key not configured. Please add your Gemini API key to continue.'')\<rparr>,
      [])"
proof -
  have a: "trim (description shown_state) \<noteq> []" by code_simp
  from C6_not_configured [OF a] a show ?thesis by blast
qed

text \<open>
  C7 (as amended). When the client is configured and the call fails, the submission ends
  with the error set to the message of the value thrown when that value is an \<^verbatim>\<open>Error\<close>,
  whatever the message, also the empty one, and to the text
  \<^verbatim>\<open>An error occurred while generating the Excel formula\<close> when the value thrown is
  anything else; loading is cleared and the formula and the explanation are empty,
  whatever they were before. Exactly one request was sent.
\<close>

theorem C7_call_failure:
  "trim (description s) \<noteq> [] \<Longrightarrow> ai (build_prompt (description s)) = Rejected err \<Longrightarrow>
   generateFormula (Some ai) s =
     (s\<lparr>formula := [], explanation := [], loading := False,
        error := Some (case err of
                         ErrorObj msg \<Rightarrow> msg
                       | NonError \<Rightarrow> js ''An error occurred while generating the Excel formula'')\<rparr>,
      [build_prompt (description s)])"
  by (cases err)
    (simp_all add: Let_def generateFormula_def start_def finish_def catch_block_def
      finally_block_def fallback_message_def)

theorem C7_call_failure_witness:
  "trim (description shown_state) \<noteq> [] \<and>
   unreachable_service (build_prompt (description shown_state)) =
     Rejected (ErrorObj (js ''fetch failed'')) \<and>
   generateFormula (Some unreachable_service) shown_state =
     (shown_state\<lparr>formula := [], explanation := [], loading := False,
        error := Some (js ''fetch failed'')\<rparr>,
      [build_prompt (description shown_state)]) \<and>
   string_rejecting_service (build_prompt (description shown_state)) = Rejected NonError \<and>
   generateFormula (Some string_rejecting_service) shown_state =
     (shown_state\<lparr>formula := [], explanation := [], loading := False,
        error := Some (js ''An error occurred while generating the Excel formula'')\<rparr>,
      [build_prompt (description shown_state)])"
proof -
  have a: "trim (description shown_state) \<noteq> []" by code_simp
  have b: "unreachable_service (build_prompt (description shown_state)) =
      Rejected (ErrorObj (js ''fetch failed''))"
    by (simp only: unreachable_service_def)
  have c: "string_rejecting_service (build_prompt (description shown_state)) = Rejected NonError"
    by (simp only: string_rejecting_service_def)
  from C7_call_failure [of shown_state unreachable_service "ErrorObj (js ''fetch failed'')",
      OF a b]
  have d: "generateFormula (Some unreachable_service) shown_state =
     (shown_state\<lparr>formula := [], explanation := [], loading := False,
        error := Some (js ''fetch failed'')\<rparr>,
      [build_prompt (description shown_state)])"
    by (simp only: thrown.case)
  from C7_call_failure [of shown_state string_rejecting_service NonError, OF a c]
  have e: "generateFormula (Some string_rejecting_service) shown_state =
     (shown_state\<lparr>formula := [], explanation := [], loading := False,
        error := Some (js ''An error occurred while generating the Excel formula'')\<rparr>,
      [build_prompt (description shown_state)])"
    by (simp only: thrown.case)
  from a b c d e show ?thesis by blast
qed

text \<open>
  The claim as written fails: the fallback is chosen by \<^verbatim>\<open>instanceof Error\<close>, not by
  whether a message is there. A call that throws an \<^verbatim>\<open>Error\<close> without a message leaves the
  empty string as the error, not the fallback text (and the page, which shows the error
  only when it is a non-empty string, shows none).
\<close>

theorem C7_empty_message_counterexample:
  "silent_failure_service (build_prompt (description shown_state)) = Rejected (ErrorObj []) \<and>
   error (fst (generateFormula (Some silent_failure_service) shown_state)) = Some [] \<and>
   js ''An error occurred while generating the Excel formula'' \<noteq> []"
  by code_simp

section \<open>The page: submissions one after another and overlapping\<close>

text \<open>
  Two invariants of the page under every event but a direct call: at most one request
  is in flight, and it is in flight exactly while loading holds; and the error is null
  while loading holds, and excludes the result.
\<close>

lemma finish_loading: "\<not> loading (finish out s)"
  by (simp add: finish_def finally_block_def)

lemma finish_exclusive:
  "error s = None \<Longrightarrow>
   error (finish out s) = None \<or> (formula (finish out s) = [] \<and> explanation (finish out s) = [])"
  by (simp add: finish_def finally_block_def catch_block_def split: outcome.splits sum.splits)

lemma start_loading:
  "start genAI s = (s', q) \<Longrightarrow> trim (description s) \<noteq> [] \<Longrightarrow> loading s' \<longleftrightarrow> q \<noteq> None"
  by (auto simp add: start_def Let_def catch_block_def finally_block_def split: option.splits)

lemma start_exclusive:
  "start genAI s = (s', q) \<Longrightarrow> trim (description s) \<noteq> [] \<Longrightarrow>
   (loading s' \<longrightarrow> error s' = None) \<and>
   (error s' = None \<or> (formula s' = [] \<and> explanation s' = []))"
  by (auto simp add: start_def Let_def catch_block_def finally_block_def split: option.splits)

lemma step_keeps_single_flight:
  assumes "\<not> is_invoke ev"
    and "length (in_flight p) \<le> 1 \<and> (loading (ui p) \<longleftrightarrow> in_flight p \<noteq> [])"
  shows "length (in_flight (step genAI p ev)) \<le> 1 \<and>
         (loading (ui (step genAI p ev)) \<longleftrightarrow> in_flight (step genAI p ev) \<noteq> [])"
proof (cases ev)
  case (Edit d)
  with assms show ?thesis by simp
next
  case Click
  consider (disabled) "loading (ui p) \<or> trim (description (ui p)) = []"
    | (enabled) "\<not> loading (ui p)" "trim (description (ui p)) \<noteq> []"
    by blast
  then show ?thesis
  proof cases
    case disabled
    with Click assms show ?thesis by simp
  next
    case enabled
    obtain s' q where st: "start genAI (ui p) = (s', q)" by fastforce
    from enabled assms have e: "in_flight p = []" by simp
    from st enabled have "loading s' \<longleftrightarrow> q \<noteq> None" by (simp add: start_loading)
    with Click enabled st e show ?thesis
      by (cases q) (simp_all add: invoke_def)
  qed
next
  case Invoke
  with assms show ?thesis by (simp add: is_invoke_def)
next
  case (Settle k out)
  consider (pending) "k < length (in_flight p)" | (none) "\<not> k < length (in_flight p)"
    by blast
  then show ?thesis
  proof cases
    case pending
    with assms have k: "k = 0" and l: "length (in_flight p) = 1" by auto
    from l have "drop (Suc 0) (in_flight p) = []" by simp
    with Settle pending k show ?thesis by (simp add: finish_loading)
  next
    case none
    with Settle assms show ?thesis by simp
  qed
qed

lemma step_keeps_exclusive:
  assumes "\<not> is_invoke ev"
    and "(loading (ui p) \<longrightarrow> error (ui p) = None) \<and>
         (error (ui p) = None \<or> (formula (ui p) = [] \<and> explanation (ui p) = []))"
    and "loading (ui p) \<longleftrightarrow> in_flight p \<noteq> []"
  shows "(loading (ui (step genAI p ev)) \<longrightarrow> error (ui (step genAI p ev)) = None) \<and>
         (error (ui (step genAI p ev)) = None \<or>
          (formula (ui (step genAI p ev)) = [] \<and> explanation (ui (step genAI p ev)) = []))"
proof (cases ev)
  case (Edit d)
  with assms show ?thesis by simp
next
  case Click
  consider (disabled) "loading (ui p) \<or> trim (description (ui p)) = []"
    | (enabled) "\<not> loading (ui p)" "trim (description (ui p)) \<noteq> []"
    by blast
  then show ?thesis
  proof cases
    case disabled
    with Click assms show ?thesis by simp
  next
    case enabled
    obtain s' q where st: "start genAI (ui p) = (s', q)" by fastforce
    from start_exclusive [OF st enabled(2)] Click enabled st show ?thesis
      by (cases q) (simp_all add: invoke_def)
  qed
next
  case Invoke
  with assms show ?thesis by (simp add: is_invoke_def)
next
  case (Settle k out)
  consider (pending) "k < length (in_flight p)" | (none) "\<not> k < length (in_flight p)"
    by blast
  then show ?thesis
  proof cases
    case pending
    with assms(3) have "loading (ui p)" by auto
    with assms(2) have "error (ui p) = None" by simp
    from finish_exclusive [OF this, of out] Settle pending show ?thesis
      by (simp add: finish_loading)
  next
    case none
    with Settle assms show ?thesis by simp
  qed
qed

lemma run_keeps_single_flight:
  "filter is_invoke evs = [] \<Longrightarrow>
   length (in_flight p) \<le> 1 \<and> (loading (ui p) \<longleftrightarrow> in_flight p \<noteq> []) \<Longrightarrow>
   length (in_flight (run genAI p evs)) \<le> 1 \<and>
   (loading (ui (run genAI p evs)) \<longleftrightarrow> in_flight (run genAI p evs) \<noteq> [])"
proof (induction evs arbitrary: p)
  case Nil
  then show ?case by (simp add: run_def)
next
  case (Cons ev evs)
  from Cons.prems(1) have ni: "\<not> is_invoke ev" and rest: "filter is_invoke evs = []"
    by (simp_all split: if_splits)
  from step_keeps_single_flight [OF ni Cons.prems(2)]
  have "length (in_flight (step genAI p ev)) \<le> 1 \<and>
        (loading (ui (step genAI p ev)) \<longleftrightarrow> in_flight (step genAI p ev) \<noteq> [])" .
  with Cons.IH [of "step genAI p ev"] rest show ?case
    by (simp add: run_def)
qed

lemma run_keeps_exclusive:
  "filter is_invoke evs = [] \<Longrightarrow>
   length (in_flight p) \<le> 1 \<and> (loading (ui p) \<longleftrightarrow> in_flight p \<noteq> []) \<Longrightarrow>
   (loading (ui p) \<longrightarrow> error (ui p) = None) \<and>
   (error (ui p) = None \<or> (formula (ui p) = [] \<and> explanation (ui p) = [])) \<Longrightarrow>
   (loading (ui (run genAI p evs)) \<longrightarrow> error (ui (run genAI p evs)) = None) \<and>
   (error (ui (run genAI p evs)) = None \<or>
    (formula (ui (run genAI p evs)) = [] \<and> explanation (ui (run genAI p evs)) = []))"
proof (induction evs arbitrary: p)
  case Nil
  then show ?case by (simp add: run_def)
next
  case (Cons ev evs)
  from Cons.prems(1) have ni: "\<not> is_invoke ev" and rest: "filter is_invoke evs = []"
    by (simp_all split: if_splits)
  from Cons.prems(2) have l: "loading (ui p) \<longleftrightarrow> in_flight p \<noteq> []" by simp
  note a = step_keeps_single_flight [OF ni Cons.prems(2), of genAI]
  note b = step_keeps_exclusive [OF ni Cons.prems(3) l, of genAI]
  from Cons.IH [OF rest a b] show ?case by (simp add: run_def)
qed

text \<open>
  C10 (as amended). As long as no call of \<^verbatim>\<open>generateFormula\<close> overlaps another, the error
  and the result exclude each other: if the error is set then the formula and the
  explanation are empty, and if the formula is not empty then the error is null. This
  holds after one call with a non-blank description that ran from its first line to its
  last with nothing in between, whatever the state before it; and it holds in every state
  that the page reaches from its initial state through typing, the button (disabled while
  loading holds) and the answers of the service, with no direct call.
\<close>

theorem C10_error_and_result_exclusive:
  "(trim (description s) \<noteq> [] \<and> s' = fst (generateFormula genAI s) \<longrightarrow>
      (error s' \<noteq> None \<longrightarrow> formula s' = [] \<and> explanation s' = []) \<and>
      (formula s' \<noteq> [] \<longrightarrow> error s' = None)) \<and>
   (filter is_invoke evs = [] \<and> t = ui (run genAI idle_page evs) \<longrightarrow>
      (error t \<noteq> None \<longrightarrow> formula t = [] \<and> explanation t = []) \<and>
      (formula t \<noteq> [] \<longrightarrow> error t = None))"
proof (intro conjI impI)
  assume "trim (description s) \<noteq> [] \<and> s' = fst (generateFormula genAI s)"
  then have v: "trim (description s) \<noteq> []" and s': "s' = fst (generateFormula genAI s)"
    by simp_all
  from v have "error s' = None \<or> (formula s' = [] \<and> explanation s' = [])"
    unfolding s'
    by (auto simp add: Let_def generateFormula_def start_def finish_def catch_block_def
        finally_block_def split: option.splits outcome.splits sum.splits)
  then show "formula s' = []" if "error s' \<noteq> None" using that by blast
  from \<open>error s' = None \<or> (formula s' = [] \<and> explanation s' = [])\<close>
  show "explanation s' = []" if "error s' \<noteq> None" using that by blast
  from \<open>error s' = None \<or> (formula s' = [] \<and> explanation s' = [])\<close>
  show "error s' = None" if "formula s' \<noteq> []" using that by blast
next
  assume "filter is_invoke evs = [] \<and> t = ui (run genAI idle_page evs)"
  then have f: "filter is_invoke evs = []" and t: "t = ui (run genAI idle_page evs)"
    by simp_all
  have i1: "length (in_flight idle_page) \<le> 1 \<and>
      (loading (ui idle_page) \<longleftrightarrow> in_flight idle_page \<noteq> [])"
    by (simp add: idle_page_def initial_state_def)
  have i2: "(loading (ui idle_page) \<longrightarrow> error (ui idle_page) = None) \<and>
      (error (ui idle_page) = None \<or>
       (formula (ui idle_page) = [] \<and> explanation (ui idle_page) = []))"
    by (simp add: idle_page_def initial_state_def)
  from run_keeps_exclusive [OF f i1 i2, of genAI]
  have e: "error t = None \<or> (formula t = [] \<and> explanation t = [])"
    unfolding t by blast
  then show "formula t = []" if "error t \<noteq> None" using that by blast
  from e show "explanation t = []" if "error t \<noteq> None" using that by blast
  from e show "error t = None" if "formula t \<noteq> []" using that by blast
qed

theorem C10_error_and_result_exclusive_witness:
  "trim (description shown_state) \<noteq> [] \<and>
   error (fst (generateFormula (Some unreachable_service) shown_state)) \<noteq> None \<and>
   formula (fst (generateFormula (Some unreachable_service) shown_state)) = [] \<and>
   explanation (fst (generateFormula (Some unreachable_service) shown_state)) = [] \<and>
   filter is_invoke [Edit (js ''sum''), Click, Settle 0 (Resolved response_quoted_sum)] = [] \<and>
   formula (ui (run (Some answering_service) idle_page
     [Edit (js ''sum''), Click, Settle 0 (Resolved response_quoted_sum)])) \<noteq> [] \<and>
   error (ui (run (Some answering_service) idle_page
     [Edit (js ''sum''), Click, Settle 0 (Resolved response_quoted_sum)])) = None"
proof -
  have a: "trim (description shown_state) \<noteq> []" by code_simp
  have b: "error (fst (generateFormula (Some unreachable_service) shown_state)) \<noteq> None"
    by code_simp
  have c: "filter is_invoke [Edit (js ''sum''), Click, Settle 0 (Resolved response_quoted_sum)] = []"
    by (simp add: is_invoke_def)
  have d: "formula (ui (run (Some answering_service) idle_page
     [Edit (js ''sum''), Click, Settle 0 (Resolved response_quoted_sum)])) \<noteq> []"
    by code_simp
  from C10_error_and_result_exclusive [of shown_state
      "fst (generateFormula (Some unreachable_service) shown_state)" "Some unreachable_service"
      "[Edit (js ''sum''), Click, Settle 0 (Resolved response_quoted_sum)]"
      "ui (run (Some unreachable_service) idle_page
         [Edit (js ''sum''), Click, Settle 0 (Resolved response_quoted_sum)])"] a b
  have e: "formula (fst (generateFormula (Some unreachable_service) shown_state)) = [] \<and>
      explanation (fst (generateFormula (Some unreachable_service) shown_state)) = []"
    by blast
  from C10_error_and_result_exclusive [of shown_state
      "fst (generateFormula (Some answering_service) shown_state)" "Some answering_service"
      "[Edit (js ''sum''), Click, Settle 0 (Resolved response_quoted_sum)]"
      "ui (run (Some answering_service) idle_page
         [Edit (js ''sum''), Click, Settle 0 (Resolved response_quoted_sum)])"] c d
  have g: "error (ui (run (Some answering_service) idle_page
     [Edit (js ''sum''), Click, Settle 0 (Resolved response_quoted_sum)])) = None"
    by blast
  from a b c d e g show ?thesis by blast
qed

text \<open>
  The claim as written fails for overlapping calls: only the first lines of
  \<^verbatim>\<open>generateFormula\<close> clear the error, the success path does not. Two direct calls
  overlap; the first request fails, which sets the error; then the second succeeds, and
  its formula stands beside the error of the first.
\<close>

theorem C10_overlapping_calls_counterexample:
  "error (ui (run (Some answering_service) idle_page
      [Edit (js ''sum''), Invoke, Invoke, Settle 0 (Rejected (ErrorObj (js ''fetch failed''))),
       Settle 0 (Resolved (js ''FORMULA:=A1 EXPLANATION:x''))]))
     = Some (js ''fetch failed'') \<and>
   formula (ui (run (Some answering_service) idle_page
      [Edit (js ''sum''), Invoke, Invoke, Settle 0 (Rejected (ErrorObj (js ''fetch failed''))),
       Settle 0 (Resolved (js ''FORMULA:=A1 EXPLANATION:x''))]))
     = js ''=A1'' \<and>
   in_flight (run (Some answering_service) idle_page
      [Edit (js ''sum''), Invoke, Invoke, Settle 0 (Rejected (ErrorObj (js ''fetch failed''))),
       Settle 0 (Resolved (js ''FORMULA:=A1 EXPLANATION:x''))]) = [] \<and>
   js ''=A1'' \<noteq> []"
  by code_simp

text \<open>
  C9 (as amended). \<^verbatim>\<open>generateFormula\<close> numbers no request and discards no result. What
  keeps a stale answer away is the button alone: it is disabled while loading holds, so
  as long as every submission comes from the button (the trace has no direct \<open>Invoke\<close>),
  at most one request is in flight, and loading holds exactly while one is. A result that
  is published is then the result of the request issued last.
\<close>

theorem C9_button_single_flight:
  "filter is_invoke evs = [] \<Longrightarrow> in_flight p = [] \<Longrightarrow> \<not> loading (ui p) \<Longrightarrow>
   length (in_flight (run genAI p evs)) \<le> 1 \<and>
   (loading (ui (run genAI p evs)) \<longleftrightarrow> in_flight (run genAI p evs) \<noteq> [])"
  using run_keeps_single_flight [of evs p genAI] by simp

theorem C9_button_single_flight_witness:
  "filter is_invoke [Edit (js ''sum''), Click, Click, Settle 0 (Rejected NonError), Click] = [] \<and>
   in_flight idle_page = [] \<and> \<not> loading (ui idle_page) \<and>
   length (in_flight (run (Some answering_service) idle_page
     [Edit (js ''sum''), Click, Click, Settle 0 (Rejected NonError), Click])) \<le> 1"
  using C9_button_single_flight [of "[Edit (js ''sum''), Click, Click, Settle 0 (Rejected NonError), Click]"
      idle_page "Some answering_service"]
  by (simp add: is_invoke_def idle_page_def initial_state_def)

text \<open>
  The claim as written fails. Two direct calls overlap; the second request settles first
  and its formula is shown; then the first, superseded request fails, and its failure
  replaces the result of the second.
\<close>

theorem C9_stale_completion_counterexample:
  "formula (ui (run (Some answering_service) idle_page
      [Edit (js ''sum''), Invoke, Invoke, Settle 1 (Resolved (js ''FORMULA:=A1 EXPLANATION:x''))]))
     = js ''=A1'' \<and>
   formula (ui (run (Some answering_service) idle_page
      [Edit (js ''sum''), Invoke, Invoke, Settle 1 (Resolved (js ''FORMULA:=A1 EXPLANATION:x'')),
       Settle 0 (Rejected (ErrorObj (js ''fetch failed'')))]))
     = [] \<and>
   error (ui (run (Some answering_service) idle_page
      [Edit (js ''sum''), Invoke, Invoke, Settle 1 (Resolved (js ''FORMULA:=A1 EXPLANATION:x'')),
       Settle 0 (Rejected (ErrorObj (js ''fetch failed'')))]))
     = Some (js ''fetch failed'') \<and>
   js ''=A1'' \<noteq> []"
  by code_simp

end
